theory Spec2Isabelle
  imports Complex_Main "HOL-Library.Log_Nat" "HOL-Library.Sublist" "HOL-Library.Multiset"
begin

section \<open>The Python runtime pieces used by \<^verbatim>\<open>generate-test-rules.py\<close>\<close>

text \<open>
  Exceptions that the script or the library functions it calls can raise. A computation
  that raises is the value \<open>Inl e\<close>.
\<close>

datatype error = KeyError | IndexError | ValueError | OverflowError | ZeroDivisionError

subsection \<open>Binary64 arithmetic of \<^verbatim>\<open>int(total_rules * 0.05)\<close>\<close>

text \<open>
  A finite double is a pair \<open>(m, e)\<close> of integers that stands for \<open>m * 2 ^ e\<close>. Every
  operation first computes the exact result and then rounds the mantissa to 53 bits, to
  nearest, ties to even, as IEEE 754 does. The exponent range only matters for the
  conversion of a huge \<^verbatim>\<open>int\<close>, which raises \<^verbatim>\<open>OverflowError\<close>; a product of a finite double
  of magnitude at least 1 with the literals 0.05 and 0.03 is neither subnormal nor
  infinite, so the product needs no range check.
\<close>

type_synonym float64 = "int \<times> int"

definition rshift_rne :: "int \<Rightarrow> nat \<Rightarrow> int" where
  "rshift_rne m s =
     (let q = m div 2 ^ s; r = m mod 2 ^ s
      in if 2 * r > 2 ^ s \<or> (2 * r = 2 ^ s \<and> odd q) then q + 1 else q)"

definition round53 :: "float64 \<Rightarrow> float64" where
  "round53 x =
     (case x of (m, e) \<Rightarrow>
        let s = bitlen \<bar>m\<bar> - 53
        in if s \<le> 0 then (m, e) else (sgn m * rshift_rne \<bar>m\<bar> (nat s), e + s))"

definition float_of_int :: "int \<Rightarrow> error + float64" where
  "float_of_int n =
     (case round53 (n, 0) of (m, e) \<Rightarrow>
        if bitlen \<bar>m\<bar> + e > 1024 then Inl OverflowError else Inr (m, e))"

definition fmul :: "float64 \<Rightarrow> float64 \<Rightarrow> float64" where
  "fmul x y = (case x of (m1, e1) \<Rightarrow> case y of (m2, e2) \<Rightarrow> round53 (m1 * m2, e1 + e2))"

definition int_of_float :: "float64 \<Rightarrow> int" where
  "int_of_float x =
     (case x of (m, e) \<Rightarrow>
        if e \<ge> 0 then m * 2 ^ nat e else sgn m * (\<bar>m\<bar> div 2 ^ nat (- e)))"

text \<open>The literals \<^verbatim>\<open>0.05 = 0x1.999999999999ap-5\<close> and \<^verbatim>\<open>0.03 = 0x1.eb851eb851eb8p-6\<close>.\<close>

definition lit_0_05 :: float64 where
  "lit_0_05 = (7205759403792794, - 57)"

definition lit_0_03 :: float64 where
  "lit_0_03 = (8646911284551352, - 58)"

text \<open>\<^verbatim>\<open>int(n * c)\<close> for an \<^verbatim>\<open>int\<close> n and a float literal c: convert, multiply, truncate.\<close>

definition int_of_product :: "int \<Rightarrow> float64 \<Rightarrow> error + int" where
  "int_of_product n c =
     (case float_of_int n of Inl err \<Rightarrow> Inl err | Inr x \<Rightarrow> Inr (int_of_float (fmul x c)))"

section \<open>The distribution of the rules (lines 150 to 153)\<close>

record distribution =
  num_duplicates :: int
  num_invalid :: int
  num_valid :: int

definition calculate_distribution :: "int \<Rightarrow> error + distribution" where
  "calculate_distribution total_rules =
     (case int_of_product total_rules lit_0_05 of
        Inl err \<Rightarrow> Inl err
      | Inr nd \<Rightarrow>
         (case int_of_product total_rules lit_0_03 of
            Inl err \<Rightarrow> Inl err
          | Inr ni \<Rightarrow>
              Inr \<lparr>num_duplicates = nd, num_invalid = ni,
                   num_valid = total_rules - nd - ni\<rparr>))"

section \<open>The module \<^verbatim>\<open>random\<close>\<close>

text \<open>
  The state of the global generator is an infinite sequence of numbers still to be
  drawn. The Mersenne Twister itself is not reproduced: each library call takes the
  next numbers of an arbitrary sequence and reduces them into its range, so a statement
  proved for every sequence holds for every seed. A computation is a function from the
  generator state to an exception or to a result with the state that follows.
\<close>

type_synonym rng = "nat \<Rightarrow> nat"

type_synonym 'a rand = "rng \<Rightarrow> error + ('a \<times> rng)"

definition return :: "'a \<Rightarrow> 'a rand" where
  "return x g = Inr (x, g)"

definition raise :: "error \<Rightarrow> 'a rand" where
  "raise err g = Inl err"

definition rbind :: "'a rand \<Rightarrow> ('a \<Rightarrow> 'b rand) \<Rightarrow> 'b rand" where
  "rbind m f g = (case m g of Inl err \<Rightarrow> Inl err | Inr (x, g') \<Rightarrow> f x g')"

definition randbelow :: "nat \<Rightarrow> nat rand" where
  "randbelow n g = Inr (g 0 mod n, \<lambda>i. g (Suc i))"

definition randint :: "int \<Rightarrow> int \<Rightarrow> int rand" where
  "randint a b =
     (if b < a then raise ValueError
      else rbind (randbelow (nat (b - a + 1))) (\<lambda>r. return (a + int r)))"

definition choice :: "'a list \<Rightarrow> 'a rand" where
  "choice seq =
     (if seq = [] then raise IndexError
      else rbind (randbelow (length seq)) (\<lambda>i. return (seq ! i)))"

text \<open>
  \<^verbatim>\<open>random.sample\<close> on a small population copies it into a pool; step \<open>i\<close> draws
  \<open>j\<close> below \<open>n - i\<close>, takes \<open>pool[j]\<close> and moves \<open>pool[n - i - 1]\<close> into the vacancy.
  The second argument of the loop is \<open>n - i\<close>.
\<close>

fun sample_loop :: "nat \<Rightarrow> nat \<Rightarrow> 'a list \<Rightarrow> 'a list rand" where
  "sample_loop 0 m pool = return []"
| "sample_loop (Suc k) m pool =
     rbind (randbelow m) (\<lambda>j.
     rbind (sample_loop k (m - 1) (pool[j := pool ! (m - 1)])) (\<lambda>rest.
     return (pool ! j # rest)))"

definition sample :: "'a list \<Rightarrow> int \<Rightarrow> 'a list rand" where
  "sample population k =
     (if k < 0 \<or> int (length population) < k then raise ValueError
      else sample_loop (nat k) (length population) population)"

text \<open>
  \<^verbatim>\<open>random.shuffle\<close>: for \<open>i\<close> from \<open>len(x) - 1\<close> down to 1, swap \<open>x[i]\<close> with
  \<open>x[j]\<close> for a \<open>j\<close> drawn below \<open>i + 1\<close>.
\<close>

fun shuffle_loop :: "nat list \<Rightarrow> 'a list \<Rightarrow> 'a list rand" where
  "shuffle_loop [] x = return x"
| "shuffle_loop (i # is) x =
     rbind (randbelow (i + 1)) (\<lambda>j. shuffle_loop is (x[i := x ! j, j := x ! i]))"

definition shuffle :: "'a list \<Rightarrow> 'a list rand" where
  "shuffle x = shuffle_loop (rev [1..<length x]) x"

section \<open>Strings and JSON\<close>

definition startswith :: "string \<Rightarrow> string \<Rightarrow> bool" where
  "startswith s pre = prefix pre s"

definition endswith :: "string \<Rightarrow> string \<Rightarrow> bool" where
  "endswith s suf = suffix suf s"

text \<open>\<^verbatim>\<open>sub in s\<close> for strings.\<close>

fun str_contains :: "string \<Rightarrow> string \<Rightarrow> bool" where
  "str_contains sub [] = (sub = [])"
| "str_contains sub (c # cs) = (prefix sub (c # cs) \<or> str_contains sub cs)"

text \<open>
  \<^verbatim>\<open>s.replace(old, new)\<close>: every occurrence of \<open>old\<close>, found from the left and not
  overlapping, becomes \<open>new\<close>; an empty \<open>old\<close> matches before every character and at
  the end.
\<close>

function replace_from :: "string \<Rightarrow> string \<Rightarrow> string \<Rightarrow> string" where
  "replace_from old new [] = []"
| "replace_from old new (c # cs) =
     (if old \<noteq> [] \<and> prefix old (c # cs)
      then new @ replace_from old new (drop (length old) (c # cs))
      else c # replace_from old new cs)"
  by pat_completeness auto
termination
  by (relation "measure (\<lambda>(old, new, s). length s)") auto

definition replace_str :: "string \<Rightarrow> string \<Rightarrow> string \<Rightarrow> string" where
  "replace_str s old new =
     (if old = [] then new @ concat (map (\<lambda>c. c # new) s) else replace_from old new s)"

text \<open>\<^verbatim>\<open>str.title()\<close> on ASCII text.\<close>

definition lower_letters :: string where
  "lower_letters = ''abcdefghijklmnopqrstuvwxyz''"

definition upper_letters :: string where
  "upper_letters = ''ABCDEFGHIJKLMNOPQRSTUVWXYZ''"

definition to_upper :: "char \<Rightarrow> char" where
  "to_upper c = (case map_of (zip lower_letters upper_letters) c of Some u \<Rightarrow> u | None \<Rightarrow> c)"

definition to_lower :: "char \<Rightarrow> char" where
  "to_lower c = (case map_of (zip upper_letters lower_letters) c of Some l \<Rightarrow> l | None \<Rightarrow> c)"

fun title_from :: "bool \<Rightarrow> string \<Rightarrow> string" where
  "title_from previous_is_cased [] = []"
| "title_from previous_is_cased (c # cs) =
     (if c \<in> set lower_letters then
        (if previous_is_cased then c else to_upper c) # title_from True cs
      else if c \<in> set upper_letters then
        (if previous_is_cased then to_lower c else c) # title_from True cs
      else c # title_from False cs)"

definition title :: "string \<Rightarrow> string" where
  "title s = title_from False s"

text \<open>Decimal text of an integer, \<^verbatim>\<open>str(n)\<close>, and the format \<^verbatim>\<open>{n:04d}\<close>.\<close>

fun nat_to_dec :: "nat \<Rightarrow> string" where
  "nat_to_dec n =
     (if n < 10 then [''0123456789'' ! n]
      else nat_to_dec (n div 10) @ [''0123456789'' ! (n mod 10)])"

definition str_of_int :: "int \<Rightarrow> string" where
  "str_of_int i = (if i < 0 then CHR ''-'' # nat_to_dec (nat (- i)) else nat_to_dec (nat i))"

definition zero_pad :: "nat \<Rightarrow> string \<Rightarrow> string" where
  "zero_pad w s = replicate (w - length s) CHR ''0'' @ s"

definition format_04d :: "int \<Rightarrow> string" where
  "format_04d i =
     (if i < 0 then CHR ''-'' # zero_pad 3 (nat_to_dec (nat (- i)))
      else zero_pad 4 (nat_to_dec (nat i)))"

text \<open>
  JSON values and \<^verbatim>\<open>json.dumps\<close>, with the default separators and with \<^verbatim>\<open>indent=2\<close>.
  A dictionary keeps the order of insertion, so it is a list of pairs. Only the quote
  and the backslash are escaped: the script writes no control or non-ASCII character.
\<close>

datatype json =
  JInt int
| JStr string
| JBool bool
| JList "json list"
| JDict "(string \<times> json) list"

definition json_string :: "string \<Rightarrow> string" where
  "json_string s =
     CHR 0x22 # concat (map (\<lambda>c. if c = CHR 0x22 \<or> c = CHR 0x5C then [CHR 0x5C, c] else [c]) s)
       @ [CHR 0x22]"

fun join :: "string \<Rightarrow> string list \<Rightarrow> string" where
  "join sep [] = []"
| "join sep [x] = x"
| "join sep (x # y # ys) = x @ sep @ join sep (y # ys)"

fun dumps :: "json \<Rightarrow> string" where
  "dumps (JInt i) = str_of_int i"
| "dumps (JStr s) = json_string s"
| "dumps (JBool b) = (if b then ''true'' else ''false'')"
| "dumps (JList xs) = ''['' @ join '', '' (map dumps xs) @ '']''"
| "dumps (JDict kvs) =
     ''{'' @ join '', '' (map (\<lambda>(k, v). json_string k @ '': '' @ dumps v) kvs) @ ''}''"

fun dumps_indent :: "nat \<Rightarrow> json \<Rightarrow> string" where
  "dumps_indent lvl (JInt i) = str_of_int i"
| "dumps_indent lvl (JStr s) = json_string s"
| "dumps_indent lvl (JBool b) = (if b then ''true'' else ''false'')"
| "dumps_indent lvl (JList xs) =
     (if xs = [] then ''[]''
      else ''['' @ CHR 0x0A # replicate (2 * (lvl + 1)) CHR '' ''
        @ join ('','' @ CHR 0x0A # replicate (2 * (lvl + 1)) CHR '' '')
            (map (dumps_indent (lvl + 1)) xs)
        @ CHR 0x0A # replicate (2 * lvl) CHR '' '' @ '']'')"
| "dumps_indent lvl (JDict kvs) =
     (if kvs = [] then ''{}''
      else ''{'' @ CHR 0x0A # replicate (2 * (lvl + 1)) CHR '' ''
        @ join ('','' @ CHR 0x0A # replicate (2 * (lvl + 1)) CHR '' '')
            (map (\<lambda>(k, v). json_string k @ '': '' @ dumps_indent (lvl + 1) v) kvs)
        @ CHR 0x0A # replicate (2 * lvl) CHR '' '' @ ''}'')"

section \<open>The constants of the script (lines 16 to 56)\<close>

definition FAMILIES :: "string list" where
  "FAMILIES =
     [''fraud_detection'', ''customer_segmentation'', ''pricing_engine'',
      ''marketing_automation'', ''risk_assessment'', ''compliance_check'',
      ''payment_processing'', ''inventory_management'', ''order_fulfillment'',
      ''user_authentication'']"

definition FAMILY_FIELDS :: "(string \<times> string list) list" where
  "FAMILY_FIELDS =
     [(''fraud_detection'',
        [''transaction_amount'', ''country'', ''device_fingerprint'', ''ip_address'',
         ''transaction_count_24h'']),
      (''customer_segmentation'',
        [''customer_tier'', ''lifetime_value'', ''account_age_days'', ''purchase_frequency'',
         ''avg_order_value'']),
      (''pricing_engine'',
        [''product_category'', ''quantity'', ''customer_segment'', ''season'',
         ''competitor_price'']),
      (''marketing_automation'',
        [''email_open_rate'', ''click_through_rate'', ''campaign_type'',
         ''customer_engagement_score'']),
      (''risk_assessment'',
        [''credit_score'', ''debt_to_income_ratio'', ''employment_status'',
         ''payment_history_score'']),
      (''compliance_check'',
        [''jurisdiction'', ''document_type'', ''verification_status'', ''kyc_level'']),
      (''payment_processing'',
        [''payment_method'', ''amount'', ''currency'', ''merchant_category'', ''card_type'']),
      (''inventory_management'',
        [''stock_level'', ''reorder_point'', ''product_category'', ''warehouse_location'']),
      (''order_fulfillment'',
        [''order_status'', ''shipping_method'', ''delivery_priority'', ''package_weight'']),
      (''user_authentication'',
        [''login_attempts'', ''last_login_days_ago'', ''mfa_enabled'', ''account_status''])]"

definition VECTORIZABLE_OPERATORS :: "string list" where
  "VECTORIZABLE_OPERATORS = [''EQUAL_TO'', ''NOT_EQUAL_TO'', ''IS_ANY_OF'', ''IS_NONE_OF'']"

definition NON_VECTORIZABLE_OPERATORS :: "string list" where
  "NON_VECTORIZABLE_OPERATORS = [''GREATER_THAN'', ''LESS_THAN'', ''BETWEEN'']"

definition ALL_OPERATORS :: "string list" where
  "ALL_OPERATORS = VECTORIZABLE_OPERATORS @ NON_VECTORIZABLE_OPERATORS"

definition SAMPLE_VALUES :: "(string \<times> json list) list" where
  "SAMPLE_VALUES =
     [(''country'', map JStr [''US'', ''UK'', ''CA'', ''DE'', ''FR'', ''JP'', ''AU'']),
      (''status'', map JStr [''ACTIVE'', ''INACTIVE'', ''PENDING'', ''SUSPENDED'']),
      (''tier'', map JStr [''BRONZE'', ''SILVER'', ''GOLD'', ''PLATINUM'']),
      (''category'', map JStr [''ELECTRONICS'', ''CLOTHING'', ''FOOD'', ''BOOKS'', ''SPORTS'']),
      (''method'', map JStr [''CREDIT_CARD'', ''DEBIT_CARD'', ''PAYPAL'', ''WIRE_TRANSFER'']),
      (''boolean'', [JBool True, JBool False])]"

text \<open>\<^verbatim>\<open>d[k]\<close> raises \<^verbatim>\<open>KeyError\<close> on a missing key; \<^verbatim>\<open>d.get(k, default)\<close> does not.\<close>

definition dict_item :: "('k \<times> 'v) list \<Rightarrow> 'k \<Rightarrow> 'v rand" where
  "dict_item d k = (case map_of d k of None \<Rightarrow> raise KeyError | Some v \<Rightarrow> return v)"

definition dict_get :: "('k \<times> 'v) list \<Rightarrow> 'k \<Rightarrow> 'v \<Rightarrow> 'v" where
  "dict_get d k dflt = (case map_of d k of None \<Rightarrow> dflt | Some v \<Rightarrow> v)"

section \<open>\<^verbatim>\<open>generate_rule\<close> (lines 58 to 143)\<close>

record condition =
  field :: string
  operator :: string
  val :: json

text \<open>
  A rule is a dictionary with six keys, three of which the invalid variants delete:
  a deleted key is \<open>None\<close>.
\<close>

record rule =
  rule_code :: "string option"
  description :: "string option"
  conditions :: "condition list option"
  priority :: int
  enabled :: bool
  tags :: "string list"

text \<open>Lines 79 to 91: the value that goes with the operator.\<close>

definition generate_value :: "string \<Rightarrow> string \<Rightarrow> json rand" where
  "generate_value fld opr =
     (if opr \<in> set [''IS_ANY_OF'', ''IS_NONE_OF''] then
        rbind (randint 2 4) (\<lambda>k.
        rbind (sample (dict_get SAMPLE_VALUES ''country'' (map JStr [''US'', ''UK'', ''CA''])) k)
          (\<lambda>v.
        return (JList v)))
      else if opr = ''BETWEEN'' then
        rbind (randint 100 5000) (\<lambda>min_val.
        rbind (randint 1000 5000) (\<lambda>d.
        return (JList [JInt min_val, JInt (min_val + d)])))
      else if str_contains ''THAN'' opr then
        rbind (randint 100 10000) (\<lambda>v. return (JInt v))
      else if endswith fld ''_enabled'' \<or> endswith fld ''mfa_enabled'' then
        choice [JBool True, JBool False]
      else
        choice (dict_get SAMPLE_VALUES ''status'' (map JStr [''ACTIVE'', ''PENDING''])))"

text \<open>Lines 74 to 97: the loop that appends \<open>num_conditions\<close> conditions.\<close>

fun generate_conditions :: "nat \<Rightarrow> string list \<Rightarrow> condition list \<Rightarrow> condition list rand" where
  "generate_conditions 0 flds conds = return conds"
| "generate_conditions (Suc n) flds conds =
     rbind (choice flds) (\<lambda>fld.
     rbind (choice ALL_OPERATORS) (\<lambda>opr.
     rbind (generate_value fld opr) (\<lambda>v.
     generate_conditions n flds (conds @ [\<lparr>field = fld, operator = opr, val = v\<rparr>]))))"

text \<open>Lines 117 to 141: one of seven faults.\<close>

definition invalid_types :: "string list" where
  "invalid_types =
     [''missing_rule_code'', ''missing_description'', ''missing_conditions'',
      ''empty_conditions'', ''invalid_priority_high'', ''invalid_priority_low'',
      ''invalid_priority_negative'']"

definition corrupt :: "string \<Rightarrow> rule \<Rightarrow> rule" where
  "corrupt invalid_type r =
     (if invalid_type = ''missing_rule_code'' then r\<lparr>rule_code := None\<rparr>
      else if invalid_type = ''missing_description'' then r\<lparr>description := None\<rparr>
      else if invalid_type = ''missing_conditions'' then r\<lparr>conditions := None\<rparr>
      else if invalid_type = ''empty_conditions'' then r\<lparr>conditions := Some []\<rparr>
      else if invalid_type = ''invalid_priority_high'' then r\<lparr>priority := 1500\<rparr>
      else if invalid_type = ''invalid_priority_low'' then r\<lparr>priority := - 10\<rparr>
      else if invalid_type = ''invalid_priority_negative'' then r\<lparr>priority := - 100\<rparr>
      else r)"

definition generate_rule :: "int \<Rightarrow> string \<Rightarrow> bool \<Rightarrow> bool \<Rightarrow> rule rand" where
  "generate_rule rule_num family is_duplicate is_invalid =
     rbind
       (if is_duplicate then
          rbind (randint 100 500) (\<lambda>off.
          return (family @ ''.rule_'' @ format_04d (max 1 (rule_num - off))))
        else return (family @ ''.rule_'' @ format_04d rule_num)) (\<lambda>code.
     rbind (dict_item FAMILY_FIELDS family) (\<lambda>flds.
     rbind (randint 1 4) (\<lambda>num_conditions.
     rbind (generate_conditions (nat num_conditions) flds []) (\<lambda>conds.
     rbind (randint 1 1000) (\<lambda>prio.
     rbind (choice [True, True, True, False]) (\<lambda>en.
     rbind (return
       \<lparr>rule_code = Some code,
        description =
          Some (title (replace_str family ''_'' '' '') @ '' Rule '' @ str_of_int rule_num),
        conditions = Some conds,
        priority = prio,
        enabled = en,
        tags =
          [family, ''batch_'' @ str_of_int (rule_num div 100)]
          @ (if rule_num mod 10 = 0 then [''production-critical'', ''high-priority''] else [])
          @ (if rule_num mod 7 = 0 then [''vectorized''] else [])\<rparr>) (\<lambda>r.
     if is_invalid then rbind (choice invalid_types) (\<lambda>invalid_type. return (corrupt invalid_type r))
     else return r)))))))"

section \<open>\<^verbatim>\<open>generate_test_file\<close> (lines 145 to 218)\<close>

text \<open>
  Lines 160 to 180: the three loops have one shape. Each runs over \<open>range(count)\<close>,
  takes the family \<open>FAMILIES[i % len(FAMILIES)]\<close>, appends the generated rule to
  \<open>rules\<close> and counts \<open>rule_num\<close> up.
\<close>

fun generate_loop ::
  "bool \<Rightarrow> bool \<Rightarrow> nat list \<Rightarrow> rule list \<times> int \<Rightarrow> (rule list \<times> int) rand" where
  "generate_loop is_duplicate is_invalid [] st = return st"
| "generate_loop is_duplicate is_invalid (i # is) st =
     rbind (generate_rule (snd st) (FAMILIES ! (i mod length FAMILIES)) is_duplicate is_invalid)
       (\<lambda>r. generate_loop is_duplicate is_invalid is (fst st @ [r], snd st + 1))"

text \<open>\<^verbatim>\<open>range(n)\<close> is empty for \<open>n \<le> 0\<close>.\<close>

definition py_range :: "int \<Rightarrow> nat list" where
  "py_range n = [0..<nat n]"

text \<open>Lines 155 to 180: the rules in the order of generation.\<close>

definition generate_rules :: "distribution \<Rightarrow> rule list rand" where
  "generate_rules dst =
     rbind (generate_loop False False (py_range (num_valid dst)) ([], 1)) (\<lambda>st1.
     rbind (generate_loop True False (py_range (num_duplicates dst)) st1) (\<lambda>st2.
     rbind (generate_loop False True (py_range (num_invalid dst)) st2) (\<lambda>st3.
     return (fst st3))))"

text \<open>Lines 200 to 202: the count of the rules whose code starts with the family.\<close>

definition family_count :: "rule list \<Rightarrow> string \<Rightarrow> int" where
  "family_count rules family =
     int (length (filter (\<lambda>r. startswith (case rule_code r of None \<Rightarrow> [] | Some c \<Rightarrow> c) family)
       rules))"

definition make_stats :: "int \<Rightarrow> distribution \<Rightarrow> rule list \<Rightarrow> json" where
  "make_stats total_rules dst rules =
     JDict
       [(''total_rules'', JInt total_rules),
        (''valid_rules'', JInt (num_valid dst)),
        (''duplicate_rules'', JInt (num_duplicates dst)),
        (''invalid_rules'', JInt (num_invalid dst)),
        (''families'', JDict (map (\<lambda>family. (family, JInt (family_count rules family))) FAMILIES))]"

text \<open>The dictionary of a rule: the keys that are left, in the order of insertion.\<close>

definition condition_json :: "condition \<Rightarrow> json" where
  "condition_json c =
     JDict [(''field'', JStr (field c)), (''operator'', JStr (operator c)), (''value'', val c)]"

definition rule_json :: "rule \<Rightarrow> json" where
  "rule_json r =
     JDict
       ((case rule_code r of None \<Rightarrow> [] | Some c \<Rightarrow> [(''rule_code'', JStr c)])
        @ (case description r of None \<Rightarrow> [] | Some d \<Rightarrow> [(''description'', JStr d)])
        @ (case conditions r of
             None \<Rightarrow> []
           | Some cs \<Rightarrow> [(''conditions'', JList (map condition_json cs))])
        @ [(''priority'', JInt (priority r)),
           (''enabled'', JBool (enabled r)),
           (''tags'', JList (map JStr (tags r)))])"

text \<open>Lines 187 to 189: one line per rule.\<close>

definition jsonl :: "rule list \<Rightarrow> string" where
  "jsonl rules = concat (map (\<lambda>r. dumps (rule_json r) @ [CHR 0x0A]) rules)"

definition stats_filename :: "string \<Rightarrow> string" where
  "stats_filename filename = replace_str filename ''.jsonl'' ''_stats.json''"

text \<open>
  The file system is a map from paths to contents; \<^verbatim>\<open>open(path, 'w')\<close> followed by
  the writes replaces the content at the path. Failures of the file system itself are
  outside the model. The text printed to the standard output is not modelled, only the
  divisions by \<open>total_rules\<close> in lines 210 to 212, which raise for \<open>total_rules = 0\<close>
  after both files are written.
\<close>

type_synonym files = "string \<rightharpoonup> string"

record run =
  emitted :: "rule list"
  stats :: json
  written :: files
  raised :: "error option"

definition generate_test_file :: "string \<Rightarrow> int \<Rightarrow> files \<Rightarrow> run rand" where
  "generate_test_file filename total_rules fs =
     (case calculate_distribution total_rules of
        Inl err \<Rightarrow> raise err
      | Inr dst \<Rightarrow>
          rbind (generate_rules dst) (\<lambda>generated.
          rbind (shuffle generated) (\<lambda>rules.
          return
            \<lparr>emitted = rules,
             stats = make_stats total_rules dst rules,
             written =
               (fs(filename \<mapsto> jsonl rules))
                 (stats_filename filename \<mapsto>
                    dumps_indent 0 (make_stats total_rules dst rules)),
             raised = (if total_rules = 0 then Some ZeroDivisionError else None)\<rparr>)))"

text \<open>
  Lines 220 to 222: \<^verbatim>\<open>random.seed(42)\<close> replaces the state of the generator, whatever
  it was, by the state that the seed determines; the seeding function of the library
  is a parameter.
\<close>

definition seed :: "(int \<Rightarrow> rng) \<Rightarrow> int \<Rightarrow> unit rand" where
  "seed seeding a g = Inr ((), seeding a)"

definition seeded_run :: "(int \<Rightarrow> rng) \<Rightarrow> int \<Rightarrow> string \<Rightarrow> int \<Rightarrow> files \<Rightarrow> run rand" where
  "seeded_run seeding a filename total_rules fs =
     rbind (seed seeding a) (\<lambda>_. generate_test_file filename total_rules fs)"

definition main :: "(int \<Rightarrow> rng) \<Rightarrow> files \<Rightarrow> run rand" where
  "main seeding fs = seeded_run seeding 42 ''rules/test-rules-3k.jsonl'' 3000 fs"

section \<open>Notions used in the statements\<close>

text \<open>
  The distribution as the specification words it, with exact arithmetic:
  \<open>duplicates = floor(0.05 * totalCount)\<close>, \<open>invalid = floor(0.03 * totalCount)\<close>,
  \<open>valid = totalCount - duplicates - invalid\<close>.
\<close>

definition spec_distribution :: "int \<Rightarrow> distribution" where
  "spec_distribution total_count =
     \<lparr>num_duplicates = \<lfloor>5 / 100 * (of_int total_count :: rat)\<rfloor>,
      num_invalid = \<lfloor>3 / 100 * (of_int total_count :: rat)\<rfloor>,
      num_valid =
        total_count - \<lfloor>5 / 100 * (of_int total_count :: rat)\<rfloor>
          - \<lfloor>3 / 100 * (of_int total_count :: rat)\<rfloor>\<rparr>"

text \<open>The shapes of the value of a condition.\<close>

fun ordered_numeric_pair :: "json \<Rightarrow> bool" where
  "ordered_numeric_pair (JList [JInt a, JInt b]) = (a \<le> b)"
| "ordered_numeric_pair _ = False"

fun list_of_2_to_4 :: "json \<Rightarrow> bool" where
  "list_of_2_to_4 (JList vs) = (2 \<le> length vs \<and> length vs \<le> 4)"
| "list_of_2_to_4 _ = False"

definition value_shape_matches :: "condition \<Rightarrow> bool" where
  "value_shape_matches c =
     ((operator c = ''BETWEEN'' \<longrightarrow> ordered_numeric_pair (val c))
      \<and> (operator c \<in> {''IS_ANY_OF'', ''IS_NONE_OF''} \<longrightarrow> list_of_2_to_4 (val c)))"

definition country_codes :: "string list" where
  "country_codes = [''US'', ''UK'', ''CA'', ''DE'', ''FR'', ''JP'', ''AU'']"

fun distinct_country_codes :: "json \<Rightarrow> bool" where
  "distinct_country_codes (JList vs) = (distinct vs \<and> set vs \<subseteq> JStr ` set country_codes)"
| "distinct_country_codes _ = False"

fun gap_1000_to_5000 :: "json \<Rightarrow> bool" where
  "gap_1000_to_5000 (JList [JInt a, JInt b]) = (1000 \<le> b - a \<and> b - a \<le> 5000 \<and> a < b)"
| "gap_1000_to_5000 _ = False"

definition value_drawn_as_coded :: "condition \<Rightarrow> bool" where
  "value_drawn_as_coded c =
     ((operator c \<in> {''IS_ANY_OF'', ''IS_NONE_OF''} \<longrightarrow> distinct_country_codes (val c))
      \<and> (operator c = ''BETWEEN'' \<longrightarrow> gap_1000_to_5000 (val c)))"

text \<open>The seven faults of an invalid rule, and the four fields they can spoil.\<close>

definition count_true :: "bool list \<Rightarrow> nat" where
  "count_true bs = length (filter (\<lambda>b. b) bs)"

definition corruptions :: "rule \<Rightarrow> bool list" where
  "corruptions r =
     [rule_code r = None, description r = None, conditions r = None, conditions r = Some [],
      priority r = 1500, priority r = - 10, priority r = - 100]"

definition conditions_well_formed :: "rule \<Rightarrow> bool" where
  "conditions_well_formed r =
     (case conditions r of
        None \<Rightarrow> False
      | Some cs \<Rightarrow> 1 \<le> length cs \<and> length cs \<le> 4 \<and> list_all value_shape_matches cs)"

definition well_formed_fields :: "rule \<Rightarrow> bool list" where
  "well_formed_fields r =
     [rule_code r \<noteq> None, description r \<noteq> None, conditions_well_formed r,
      1 \<le> priority r \<and> priority r \<le> 1000]"

text \<open>
  The rules in the order of generation, before the shuffle, and the three parts of that
  list that the three loops append. A run that raises has generated nothing.
\<close>

definition generation_order :: "int \<Rightarrow> rng \<Rightarrow> rule list" where
  "generation_order total_rules g =
     (case calculate_distribution total_rules of
        Inl err \<Rightarrow> []
      | Inr dst \<Rightarrow> (case generate_rules dst g of Inl err \<Rightarrow> [] | Inr (rules, g') \<Rightarrow> rules))"

definition first_duplicate :: "int \<Rightarrow> nat" where
  "first_duplicate total_rules =
     (case calculate_distribution total_rules of
        Inl err \<Rightarrow> 0
      | Inr dst \<Rightarrow> nat (num_valid dst))"

definition first_invalid :: "int \<Rightarrow> nat" where
  "first_invalid total_rules =
     (case calculate_distribution total_rules of
        Inl err \<Rightarrow> 0
      | Inr dst \<Rightarrow> nat (num_valid dst) + nat (num_duplicates dst))"

definition duplicate_partition :: "int \<Rightarrow> rng \<Rightarrow> rule list" where
  "duplicate_partition total_rules g =
     take (first_invalid total_rules - first_duplicate total_rules)
       (drop (first_duplicate total_rules) (generation_order total_rules g))"

definition invalid_partition :: "int \<Rightarrow> rng \<Rightarrow> rule list" where
  "invalid_partition total_rules g =
     drop (first_invalid total_rules) (generation_order total_rules g)"

text \<open>The result of a run; a run that raises has none.\<close>

definition the_run :: "string \<Rightarrow> int \<Rightarrow> files \<Rightarrow> rng \<Rightarrow> run option" where
  "the_run filename total_rules fs g =
     (case generate_test_file filename total_rules fs g of
        Inl err \<Rightarrow> None
      | Inr (r, g') \<Rightarrow> Some r)"

definition emitted_rules :: "string \<Rightarrow> int \<Rightarrow> files \<Rightarrow> rng \<Rightarrow> rule list" where
  "emitted_rules filename total_rules fs g =
     (case the_run filename total_rules fs g of None \<Rightarrow> [] | Some r \<Rightarrow> emitted r)"

text \<open>A rule of the list repeats the code of a rule generated before it.\<close>

definition collides_with_earlier :: "rule list \<Rightarrow> nat \<Rightarrow> bool" where
  "collides_with_earlier rules i = (rule_code (rules ! i) \<in> set (map rule_code (take i rules)))"

text \<open>What a computation ensures of its result when it returns, and that it returns.\<close>

definition ensures :: "'a rand \<Rightarrow> ('a \<Rightarrow> bool) \<Rightarrow> bool" where
  "ensures m P = (\<forall>g x g'. m g = Inr (x, g') \<longrightarrow> P x)"

definition always_returns :: "'a rand \<Rightarrow> bool" where
  "always_returns m = (\<forall>g. \<exists>x g'. m g = Inr (x, g'))"

text \<open>The value that line 79 to 91 give for an operator, and the rule of lines 100 to 114.\<close>

definition value_for :: "string \<Rightarrow> json \<Rightarrow> bool" where
  "value_for opr v =
     ((opr \<in> {''IS_ANY_OF'', ''IS_NONE_OF''} \<longrightarrow> distinct_country_codes v \<and> list_of_2_to_4 v)
      \<and> (opr = ''BETWEEN'' \<longrightarrow> gap_1000_to_5000 v \<and> ordered_numeric_pair v))"

definition rule_tags :: "int \<Rightarrow> string \<Rightarrow> string list" where
  "rule_tags rule_num family =
     [family, ''batch_'' @ str_of_int (rule_num div 100)]
     @ (if rule_num mod 10 = 0 then [''production-critical'', ''high-priority''] else [])
     @ (if rule_num mod 7 = 0 then [''vectorized''] else [])"

definition base_rule :: "int \<Rightarrow> string \<Rightarrow> bool \<Rightarrow> rule \<Rightarrow> bool" where
  "base_rule rule_num family is_duplicate b =
     (family \<in> set FAMILIES
      \<and> (if is_duplicate
          then \<exists>off. 100 \<le> off \<and> off \<le> 500
                 \<and> rule_code b = Some (family @ ''.rule_'' @ format_04d (max 1 (rule_num - off)))
          else rule_code b = Some (family @ ''.rule_'' @ format_04d rule_num))
      \<and> description b \<noteq> None
      \<and> (\<exists>cs. conditions b = Some cs \<and> 1 \<le> length cs \<and> length cs \<le> 4
             \<and> (\<forall>c\<in>set cs. value_for (operator c) (val c)))
      \<and> 1 \<le> priority b \<and> priority b \<le> 1000
      \<and> tags b = rule_tags rule_num family)"

definition generated_by :: "int \<Rightarrow> string \<Rightarrow> bool \<Rightarrow> bool \<Rightarrow> rule \<Rightarrow> bool" where
  "generated_by rule_num family is_duplicate is_invalid x =
     (\<exists>b. base_rule rule_num family is_duplicate b
        \<and> (if is_invalid then \<exists>t\<in>set invalid_types. x = corrupt t b else x = b))"

text \<open>What a loop of lines 160 to 180 appends, and what the three of them leave.\<close>

definition loop_output :: "bool \<Rightarrow> bool \<Rightarrow> int \<Rightarrow> nat list \<Rightarrow> rule list \<Rightarrow> bool" where
  "loop_output is_duplicate is_invalid start is new =
     (length new = length is
      \<and> (\<forall>j<length is.
            generated_by (start + int j) (FAMILIES ! ((is ! j) mod length FAMILIES))
              is_duplicate is_invalid (new ! j)))"

definition rules_output :: "distribution \<Rightarrow> rule list \<Rightarrow> bool" where
  "rules_output dst rules =
     (\<exists>valid duplicate invalid.
        rules = valid @ duplicate @ invalid
        \<and> loop_output False False 1 (py_range (num_valid dst)) valid
        \<and> loop_output True False (1 + int (length valid)) (py_range (num_duplicates dst)) duplicate
        \<and> loop_output False True (1 + int (length valid) + int (length duplicate))
            (py_range (num_invalid dst)) invalid)"

text \<open>
  The rule at position \<open>i\<close> of the order of generation has the rule number \<open>i + 1\<close>, and
  the family that its loop takes for its own index.
\<close>

definition family_of_index :: "int \<Rightarrow> nat \<Rightarrow> string" where
  "family_of_index total_rules i =
     FAMILIES !
       ((if i < first_duplicate total_rules then i
         else if i < first_invalid total_rules then i - first_duplicate total_rules
         else i - first_invalid total_rules) mod length FAMILIES)"

text \<open>The file system and the statistics after a run; a run that raises before it writes leaves the
  files as they were.\<close>

definition files_after :: "string \<Rightarrow> int \<Rightarrow> files \<Rightarrow> rng \<Rightarrow> files" where
  "files_after filename total_rules fs g =
     (case the_run filename total_rules fs g of None \<Rightarrow> fs | Some r \<Rightarrow> written r)"

definition stats_json :: "string \<Rightarrow> int \<Rightarrow> files \<Rightarrow> rng \<Rightarrow> json" where
  "stats_json filename total_rules fs g =
     (case the_run filename total_rules fs g of None \<Rightarrow> JDict [] | Some r \<Rightarrow> stats r)"

text \<open>The run raises, and so has written nothing.\<close>

definition rejects_up_front :: "string \<Rightarrow> int \<Rightarrow> files \<Rightarrow> rng \<Rightarrow> bool" where
  "rejects_up_front filename total_rules fs g =
     (case generate_test_file filename total_rules fs g of Inl err \<Rightarrow> True | Inr res \<Rightarrow> False)"

text \<open>The entry of a JSON object at a key.\<close>

fun dict_entry :: "json \<Rightarrow> string \<Rightarrow> json option" where
  "dict_entry (JDict kvs) k = map_of kvs k"
| "dict_entry _ k = None"

text \<open>
  \<^verbatim>\<open>r.get("rule_code", "")\<close>, and the number of the families that count a rule: those that
  its code starts with.
\<close>

definition code_or_empty :: "rule \<Rightarrow> string" where
  "code_or_empty r = (case rule_code r of None \<Rightarrow> [] | Some c \<Rightarrow> c)"

definition families_counting :: "rule \<Rightarrow> nat" where
  "families_counting r = length (filter (startswith (code_or_empty r)) FAMILIES)"

text \<open>
  What a run shows to the outside: the exception that stops it, or the rules it emits in
  their order, its statistics, the texts of the rules file and of the statistics file,
  and the exception of the final prints; with the state in which it leaves the generator.
\<close>

definition outputs :: "string \<Rightarrow> run \<Rightarrow> rule list \<times> json \<times> string option \<times> string option \<times> error option" where
  "outputs filename r =
     (emitted r, stats r, written r filename, written r (stats_filename filename), raised r)"

definition observed :: "string \<Rightarrow> error + run \<times> rng \<Rightarrow>
    error + (rule list \<times> json \<times> string option \<times> string option \<times> error option) \<times> rng" where
  "observed filename res =
     (case res of Inl err \<Rightarrow> Inl err | Inr (r, g) \<Rightarrow> Inr (outputs filename r, g))"

text \<open>A state of the generator that yields the listed numbers and then zeros.\<close>

definition draws :: "nat list \<Rightarrow> rng" where
  "draws xs i = (if i < length xs then xs ! i else 0)"

section \<open>Rounding: the truncated products against the exact floors\<close>

lemma rshift_rne_bounds:
  assumes "0 \<le> m" "0 < s"
  shows "(m + 2 ^ (s - 1) - 1) div 2 ^ s \<le> rshift_rne m s"
    and "rshift_rne m s \<le> (m + 2 ^ (s - 1)) div 2 ^ s"
proof -
  define H :: int where "H = 2 ^ (s - 1)"
  define q where "q = m div 2 ^ s"
  define r where "r = m mod 2 ^ s"
  have P: "(2::int) ^ s = 2 * H" using assms(2) by (cases s) (simp_all add: H_def)
  have Hpos: "0 < H" by (simp add: H_def)
  have m: "m = q * (2 * H) + r" unfolding q_def r_def P[symmetric] by (rule div_mult_mod_eq[symmetric])
  have r: "0 \<le> r" "r < 2 * H" unfolding r_def P[symmetric] by simp_all
  have up: "(m + H) div (2 * H) = q + (if H \<le> r then 1 else 0)"
  proof -
    have e: "m + H = q * (2 * H) + (r + H)" by (simp add: m)
    have "(m + H) div (2 * H) = q + (r + H) div (2 * H)"
      unfolding e using Hpos by (subst div_mult_self3) simp_all
    moreover have "(r + H) div (2 * H) = (if H \<le> r then 1 else 0)"
      using r Hpos by (auto intro!: int_div_pos_eq[where r="r - H"])
    ultimately show ?thesis by simp
  qed
  have lo: "(m + H - 1) div (2 * H) = q + (if H < r then 1 else 0)"
  proof -
    have e: "m + H - 1 = q * (2 * H) + (r + H - 1)" by (simp add: m)
    have "(m + H - 1) div (2 * H) = q + (r + H - 1) div (2 * H)"
      unfolding e using Hpos by (subst div_mult_self3) simp_all
    moreover have "(r + H - 1) div (2 * H) = (if H < r then 1 else 0)"
      using r Hpos by (auto intro!: int_div_pos_eq[where r="r - H - 1"])
    ultimately show ?thesis by simp
  qed
  have qr: "m div (2 * H) = q" "m mod (2 * H) = r"
    by (simp_all add: q_def r_def P)
  have rne: "rshift_rne m s = (if H < r \<or> (r = H \<and> odd q) then q + 1 else q)"
    by (simp add: rshift_rne_def Let_def P qr)
  show "(m + 2 ^ (s - 1) - 1) div 2 ^ s \<le> rshift_rne m s"
    unfolding H_def[symmetric] P lo rne by auto
  show "rshift_rne m s \<le> (m + 2 ^ (s - 1)) div 2 ^ s"
    unfolding H_def[symmetric] P up rne by auto
qed


lemma int_le_div: "0 < b \<Longrightarrow> k * b \<le> a \<Longrightarrow> k \<le> a div (b::int)"
  using zdiv_mono1 by fastforce

lemma int_div_less:
  assumes "0 < b" "a < k * b"
  shows "a div (b::int) < k"
proof (rule ccontr)
  assume "\<not> a div b < k"
  then have "k * b \<le> (a div b) * b" using assms(1) by simp
  also have "\<dots> \<le> a" using assms(1) div_mult_mod_eq[of a b] pos_mod_sign[of b a] by linarith
  finally show False using assms(2) by simp
qed

lemma trunc_rshift_rne:
  assumes "0 \<le> m" "0 < s"
    and lo: "K * 2 ^ (s + t) < m + 2 ^ (s - 1)"
    and hi: "m + 2 ^ (s - 1) < (K + 1) * 2 ^ (s + t)"
  shows "rshift_rne m s div 2 ^ t = K"
proof -
  have "(K * 2 ^ t) * 2 ^ s \<le> m + 2 ^ (s - 1) - 1"
    using lo by (simp add: power_add mult_ac)
  then have "K * 2 ^ t \<le> (m + 2 ^ (s - 1) - 1) div 2 ^ s"
    by (intro int_le_div) simp_all
  then have L: "K * 2 ^ t \<le> rshift_rne m s"
    using rshift_rne_bounds(1)[OF assms(1,2)] by linarith
  have "m + 2 ^ (s - 1) < ((K + 1) * 2 ^ t) * 2 ^ s"
    using hi by (simp add: power_add mult_ac)
  then have "(m + 2 ^ (s - 1)) div 2 ^ s < (K + 1) * 2 ^ t"
    by (intro int_div_less) simp_all
  then have U: "rshift_rne m s < (K + 1) * 2 ^ t"
    using rshift_rne_bounds(2)[OF assms(1,2)] by linarith
  have "K \<le> rshift_rne m s div 2 ^ t"
    using L by (intro int_le_div) simp_all
  moreover have "rshift_rne m s div 2 ^ t < K + 1"
    using U by (intro int_div_less) simp_all
  ultimately show ?thesis by simp
qed

lemma half_ulp_bounds:
  assumes "2 ^ 53 \<le> (p::int)"
  shows "2 ^ 53 * 2 ^ nat (bitlen p - 54) \<le> p" and "p < 2 ^ 54 * 2 ^ nat (bitlen p - 54)"
    and "54 \<le> bitlen p"
proof -
  have pos: "0 < p" using assms by simp
  show L: "54 \<le> bitlen p"
    using assms by (simp add: bitlen_ge_iff_power)
  have "nat (bitlen p - 1) = 53 + nat (bitlen p - 54)" "nat (bitlen p) = 54 + nat (bitlen p - 54)"
    using L by simp_all
  then show "2 ^ 53 * 2 ^ nat (bitlen p - 54) \<le> p" "p < 2 ^ 54 * 2 ^ nat (bitlen p - 54)"
    using bitlen_bounds[OF pos] by (simp_all add: power_add)
qed

lemma int_of_product_eqI:
  assumes n: "0 \<le> n" "n < 2 ^ 53"
    and p: "2 ^ 53 \<le> n * M"
    and E: "bitlen (n * M) - 53 < int E"
    and lo: "K * 2 ^ E < n * M + 2 ^ nat (bitlen (n * M) - 54)"
    and hi: "n * M + 2 ^ nat (bitlen (n * M) - 54) < (K + 1) * 2 ^ E"
    and K: "0 \<le> K"
  shows "int_of_product n (M, - int E) = Inr K"
proof -
  have "bitlen n \<le> 53" using n by (simp add: bitlen_le_iff_power)
  then have fl: "float_of_int n = Inr (n, 0)"
    using n by (simp add: float_of_int_def round53_def)
  define s where "s = nat (bitlen (n * M) - 53)"
  define t where "t = E - s"
  have L: "54 \<le> bitlen (n * M)" by (rule half_ulp_bounds(3)[OF p])
  have s: "0 < s" "int s = bitlen (n * M) - 53" "s - 1 = nat (bitlen (n * M) - 54)" "s + t = E" "0 < t"
    using L E by (simp_all add: s_def t_def nat_diff_distrib)
  have pos: "0 < n * M" using p by simp
  have q: "rshift_rne (n * M) s div 2 ^ t = K"
  proof (rule trunc_rshift_rne)
    show "0 \<le> n * M" using pos by simp
    show "0 < s" by (rule s(1))
    show "K * 2 ^ (s + t) < n * M + 2 ^ (s - 1)" unfolding s(3) s(4) by (rule lo)
    show "n * M + 2 ^ (s - 1) < (K + 1) * 2 ^ (s + t)" unfolding s(3) s(4) by (rule hi)
  qed
  have q0: "0 \<le> rshift_rne (n * M) s"
    using rshift_rne_bounds(1)[OF _ s(1), of "n * M"] pos
    by (smt (verit) pos_imp_zdiv_nonneg_iff zero_less_power zero_le_power)
  have "\<bar>n * M\<bar> = n * M" "sgn (n * M) = 1" using pos by simp_all
  then have "fmul (n, 0) (M, - int E) = (rshift_rne (n * M) s, int s - int E)"
    using L by (simp add: fmul_def round53_def Let_def s_def del: sgn_mult abs_mult)
  moreover have "int s - int E < 0" "nat (int E - int s) = t" using s by (simp_all add: t_def)
  ultimately have "int_of_float (fmul (n, 0) (M, - int E)) = K"
    using q q0 by (auto simp: int_of_float_def sgn_if)
  then show ?thesis by (simp add: int_of_product_def fl)
qed


lemma int_of_product_0_05:
  assumes "1 \<le> n" "n \<le> 2 ^ 52"
  shows "int_of_product n lit_0_05 = Inr (n div 20)"
proof (cases "n = 1")
  case True
  then show ?thesis by (simp add: lit_0_05_def) code_simp
next
  case False
  define M :: int where "M = 7205759403792794"
  define h :: int where "h = 2 ^ nat (bitlen (n * M) - 54)"
  define k where "k = n div 20"
  have n: "2 \<le> n" "n \<le> 4503599627370496" using assms False by simp_all
  have k: "20 * k \<le> n" "n \<le> 20 * k + 19" "0 \<le> k"
    using n by (simp_all add: k_def)
  have p: "2 ^ 53 \<le> n * M" using n by (simp add: M_def)
  have h: "9007199254740992 * h \<le> n * M" "n * M < 18014398509481984 * h"
    using half_ulp_bounds(1,2)[OF p] by (simp_all add: h_def)
  have "bitlen (n * M) \<le> 109" using n by (simp add: bitlen_le_iff_power M_def)
  then have E: "bitlen (n * M) - 53 < int 57" by simp
  have lo: "k * 2 ^ 57 < n * M + h" using k n h by (simp add: M_def)
  have hi: "n * M + h < (k + 1) * 2 ^ 57" using k n h by (simp add: M_def)
  have "int_of_product n (M, - int 57) = Inr k"
    using n p E lo hi k(3) unfolding h_def by (intro int_of_product_eqI) simp_all
  then show ?thesis by (simp add: lit_0_05_def M_def k_def)
qed

lemma int_of_product_0_03:
  assumes "1 \<le> n" "n \<le> 2 ^ 52"
  shows "int_of_product n lit_0_03 = Inr (3 * n div 100)"
proof (cases "n = 1")
  case True
  then show ?thesis by (simp add: lit_0_03_def) code_simp
next
  case False
  define M :: int where "M = 8646911284551352"
  define h :: int where "h = 2 ^ nat (bitlen (n * M) - 54)"
  define k where "k = 3 * n div 100"
  have n: "2 \<le> n" "n \<le> 4503599627370496" using assms False by simp_all
  have k: "100 * k \<le> 3 * n" "3 * n \<le> 100 * k + 99" "0 \<le> k"
    using n by (simp_all add: k_def)
  have p: "2 ^ 53 \<le> n * M" using n by (simp add: M_def)
  have h: "9007199254740992 * h \<le> n * M" "n * M < 18014398509481984 * h"
    using half_ulp_bounds(1,2)[OF p] by (simp_all add: h_def)
  have "bitlen (n * M) \<le> 109" using n by (simp add: bitlen_le_iff_power M_def)
  then have E: "bitlen (n * M) - 53 < int 58" by simp
  have lo: "k * 2 ^ 58 < n * M + h" using k n h by (simp add: M_def)
  have hi: "n * M + h < (k + 1) * 2 ^ 58" using k n h by (simp add: M_def)
  have "int_of_product n (M, - int 58) = Inr k"
    using n p E lo hi k(3) unfolding h_def by (intro int_of_product_eqI) simp_all
  then show ?thesis by (simp add: lit_0_03_def M_def k_def)
qed

lemma floor_ratio: "\<lfloor>of_int a / of_int b * (of_int n :: rat)\<rfloor> = a * n div b"
proof -
  have "of_int a / of_int b * (of_int n :: rat) = of_int (a * n) / of_int b" by simp
  then show ?thesis by (simp only: floor_divide_of_int_eq)
qed

lemma spec_distribution_div:
  "spec_distribution n =
     \<lparr>num_duplicates = n div 20, num_invalid = 3 * n div 100,
      num_valid = n - n div 20 - 3 * n div 100\<rparr>"
proof -
  have "\<lfloor>5 / 100 * (of_int n :: rat)\<rfloor> = 5 * n div 100"
    using floor_ratio[of 5 100 n] by simp
  moreover have "\<lfloor>3 / 100 * (of_int n :: rat)\<rfloor> = 3 * n div 100"
    using floor_ratio[of 3 100 n] by simp
  ultimately show ?thesis by (simp add: spec_distribution_def)
qed

lemma calculate_distribution_sum:
  "calculate_distribution n = Inr d \<Longrightarrow> num_valid d + num_duplicates d + num_invalid d = n"
  by (auto simp: calculate_distribution_def split: sum.splits)

section \<open>The distribution of the rules\<close>

text \<open>
  C1, as the code has it. Whenever the sizes are computed at all, they add up to the
  total; and for every total from 1 to \<open>2 ^ 52\<close> the two products, computed in binary64
  and truncated, are the exact floors of 5 and 3 percent of the total.
\<close>

theorem distribution_sums_and_floors:
  "(\<forall>d. calculate_distribution n = Inr d \<longrightarrow>
        num_valid d + num_duplicates d + num_invalid d = n)
   \<and> (1 \<le> n \<and> n \<le> 2 ^ 52 \<longrightarrow> calculate_distribution n = Inr (spec_distribution n))"
proof (intro conjI allI impI)
  fix d assume "calculate_distribution n = Inr d"
  then show "num_valid d + num_duplicates d + num_invalid d = n"
    by (rule calculate_distribution_sum)
next
  assume "1 \<le> n \<and> n \<le> 2 ^ 52"
  then show "calculate_distribution n = Inr (spec_distribution n)"
    by (simp add: calculate_distribution_def int_of_product_0_05 int_of_product_0_03
        spec_distribution_div)
qed

text \<open>C1 at 100 rules: 92 valid, 5 duplicate and 3 invalid ones.\<close>

theorem distribution_100_witness:
  "(1::int) \<le> 100 \<and> (100::int) \<le> 2 ^ 52
   \<and> calculate_distribution 100 = Inr \<lparr>num_duplicates = 5, num_invalid = 3, num_valid = 92\<rparr>
   \<and> num_valid \<lparr>num_duplicates = 5, num_invalid = 3, num_valid = 92\<rparr>
       + num_duplicates \<lparr>num_duplicates = 5, num_invalid = 3, num_valid = 92\<rparr>
       + num_invalid \<lparr>num_duplicates = 5, num_invalid = 3, num_valid = 92\<rparr> = (100::int)"
  using distribution_sums_and_floors[of 100] by (simp add: spec_distribution_div)

text \<open>
  C1 as stated, for every total from 1 on, fails: at 4691249611844333 rules the double
  nearest to the product with 0.03 is a whole number above the exact value, and its
  truncation is one more than the floor; and at \<open>2 ^ 1024\<close> rules the conversion of the
  total to a double raises, so that no size is computed.
\<close>

theorem distribution_floor_counterexample:
  "calculate_distribution 4691249611844333 \<noteq> Inr (spec_distribution 4691249611844333)
   \<and> calculate_distribution (2 ^ 1024) = Inl OverflowError"
proof -
  have "calculate_distribution 4691249611844333 =
      Inr \<lparr>num_duplicates = 234562480592216, num_invalid = 140737488355330,
           num_valid = 4315949642896787\<rparr>"
    by code_simp
  then have "calculate_distribution 4691249611844333 \<noteq> Inr (spec_distribution 4691249611844333)"
    by (simp add: spec_distribution_div)
  moreover have "calculate_distribution (2 ^ 1024) = Inl OverflowError"
    by code_simp
  ultimately show ?thesis by (rule conjI)
qed

section \<open>Rules of inference for computations\<close>

lemma ensuresD: "ensures m P \<Longrightarrow> m g = Inr (x, g') \<Longrightarrow> P x"
  by (auto simp: ensures_def)

lemma ensures_weaken: "ensures m P \<Longrightarrow> (\<And>x. P x \<Longrightarrow> Q x) \<Longrightarrow> ensures m Q"
  by (auto simp: ensures_def)

lemma ensures_conj: "ensures m P \<Longrightarrow> ensures m Q \<Longrightarrow> ensures m (\<lambda>x. P x \<and> Q x)"
  by (auto simp: ensures_def)

lemma ensures_return: "P x \<Longrightarrow> ensures (return x) P"
  by (simp add: ensures_def return_def)

lemma ensures_raise: "ensures (raise err) P"
  by (simp add: ensures_def raise_def)

lemma ensures_bind:
  assumes "ensures m Q" and "\<And>x. Q x \<Longrightarrow> ensures (f x) P"
  shows "ensures (rbind m f) P"
  unfolding ensures_def
proof (intro allI impI)
  fix g y g'' assume "rbind m f g = Inr (y, g'')"
  then obtain x g' where m: "m g = Inr (x, g')" and f: "f x g' = Inr (y, g'')"
    by (auto simp: rbind_def split: sum.splits)
  from assms(1) m have "Q x" by (rule ensuresD)
  from assms(2)[OF this] f show "P y" by (rule ensuresD)
qed

lemma ensures_if:
  "(b \<Longrightarrow> ensures m P) \<Longrightarrow> (\<not> b \<Longrightarrow> ensures m' P) \<Longrightarrow> ensures (if b then m else m') P"
  by simp

lemma total_return: "always_returns (return x)"
  by (simp add: always_returns_def return_def)

lemma total_bind:
  assumes "always_returns m" and "ensures m Q" and "\<And>x. Q x \<Longrightarrow> always_returns (f x)"
  shows "always_returns (rbind m f)"
  unfolding always_returns_def
proof
  fix g
  from assms(1) obtain x g' where m: "m g = Inr (x, g')" unfolding always_returns_def by blast
  with assms(2) have "Q x" by (rule ensuresD)
  then have "always_returns (f x)" by (rule assms(3))
  then obtain y g'' where "f x g' = Inr (y, g'')" unfolding always_returns_def by blast
  with m show "\<exists>y g''. rbind m f g = Inr (y, g'')" by (simp add: rbind_def)
qed

lemma ensures_True: "ensures m (\<lambda>_. True)"
  by (simp add: ensures_def)

lemma ensures_randbelow: "0 < n \<Longrightarrow> ensures (randbelow n) (\<lambda>r. r < n)"
  by (auto simp: ensures_def randbelow_def)

lemma total_randbelow: "always_returns (randbelow n)"
  by (simp add: always_returns_def randbelow_def)

lemma ensures_randint: "ensures (randint a b) (\<lambda>x. a \<le> x \<and> x \<le> b)"
proof (cases "b < a")
  case True
  then show ?thesis by (simp add: randint_def ensures_raise)
next
  case False
  then have "0 < nat (b - a + 1)" by simp
  from ensures_randbelow[OF this] show ?thesis
    using False by (auto simp: randint_def intro!: ensures_bind[where Q="\<lambda>r. r < nat (b - a + 1)"] ensures_return)
qed

lemma total_randint: "a \<le> b \<Longrightarrow> always_returns (randint a b)"
  by (auto simp: randint_def intro!: total_bind[OF total_randbelow ensures_True] total_return)

lemma ensures_choice: "ensures (choice xs) (\<lambda>x. x \<in> set xs)"
proof (cases "xs = []")
  case True
  then show ?thesis by (simp add: choice_def ensures_raise)
next
  case False
  then have "0 < length xs" by simp
  from ensures_randbelow[OF this] show ?thesis
    using False by (auto simp: choice_def intro!: ensures_bind[where Q="\<lambda>r. r < length xs"] ensures_return)
qed

lemma total_choice: "xs \<noteq> [] \<Longrightarrow> always_returns (choice xs)"
  by (auto simp: choice_def intro!: total_bind[OF total_randbelow ensures_True] total_return)

lemma vacate:
  assumes "distinct xs" "j < length xs"
  shows "distinct (butlast (xs[j := last xs]))"
    and "set (butlast (xs[j := last xs])) = set xs - {xs ! j}"
proof -
  from assms(2) obtain ys l where xs: "xs = ys @ [l]" by (cases xs rule: rev_cases) auto
  have d: "distinct ys" "l \<notin> set ys" using assms(1) xs by auto
  show "distinct (butlast (xs[j := last xs]))"
  proof (cases "j < length ys")
    case True
    then show ?thesis using d by (simp add: xs list_update_append distinct_list_update)
  next
    case False
    then show ?thesis using d assms(2) by (simp add: xs list_update_append)
  qed
  show "set (butlast (xs[j := last xs])) = set xs - {xs ! j}"
  proof (cases "j < length ys")
    case True
    then have "ys ! j \<in> set ys" by simp
    with True show ?thesis
      using d by (auto simp add: xs list_update_append set_update_distinct nth_append)
  next
    case False
    then have "j = length ys" using assms(2) xs by simp
    then show ?thesis using d by (simp add: xs list_update_append)
  qed
qed

lemma take_vacate:
  assumes "0 < m" "m \<le> length pool" "j < m"
  shows "take (m - 1) (pool[j := pool ! (m - 1)]) = butlast ((take m pool)[j := last (take m pool)])"
proof -
  have "length (take m pool) = m" using assms by simp
  moreover from this have "take m pool \<noteq> []" using assms(1) by auto
  ultimately have l: "last (take m pool) = pool ! (m - 1)"
    using assms(1) by (simp add: last_conv_nth del: length_take)
  have "butlast ((take m pool)[j := pool ! (m - 1)]) = take (m - 1) ((take m pool)[j := pool ! (m - 1)])"
    using assms by (simp add: butlast_conv_take)
  also have "\<dots> = take (m - 1) (take m (pool[j := pool ! (m - 1)]))"
    by (simp add: take_update_swap)
  also have "\<dots> = take (m - 1) (pool[j := pool ! (m - 1)])"
    by (simp add: min_def)
  finally show ?thesis by (simp add: l)
qed

lemma ensures_sample_loop:
  "k \<le> m \<Longrightarrow> m \<le> length pool \<Longrightarrow> distinct (take m pool) \<Longrightarrow>
   ensures (sample_loop k m pool)
     (\<lambda>ys. length ys = k \<and> distinct ys \<and> set ys \<subseteq> set (take m pool))"
proof (induction k arbitrary: m pool)
  case 0
  then show ?case by (simp add: ensures_return)
next
  case (Suc k)
  have m: "0 < m" using Suc.prems by simp
  show ?case
    unfolding sample_loop.simps
  proof (rule ensures_bind[OF ensures_randbelow[OF m]])
    fix j assume j: "j < m"
    let ?pool = "pool[j := pool ! (m - 1)]"
    have tv: "take (m - 1) ?pool = butlast ((take m pool)[j := last (take m pool)])"
      using m Suc.prems j by (intro take_vacate) simp_all
    have jl: "j < length (take m pool)" using j Suc.prems by simp
    have d: "distinct (take (m - 1) ?pool)"
      unfolding tv using Suc.prems(3) jl by (rule vacate(1))
    have s: "set (take (m - 1) ?pool) = set (take m pool) - {pool ! j}"
      unfolding tv using vacate(2)[OF Suc.prems(3) jl] j by simp
    have ih: "ensures (sample_loop k (m - 1) ?pool)
        (\<lambda>ys. length ys = k \<and> distinct ys \<and> set ys \<subseteq> set (take (m - 1) ?pool))"
      using Suc.prems d by (intro Suc.IH) simp_all
    have pj: "pool ! j \<in> set (take m pool)"
      using jl j by (metis nth_mem nth_take)
    show "ensures (rbind (sample_loop k (m - 1) ?pool) (\<lambda>rest. return (pool ! j # rest)))
        (\<lambda>ys. length ys = Suc k \<and> distinct ys \<and> set ys \<subseteq> set (take m pool))"
      by (rule ensures_bind[OF ih]) (use s pj in \<open>auto intro!: ensures_return\<close>)
  qed
qed

lemma ensures_sample:
  "distinct population \<Longrightarrow>
   ensures (sample population k)
     (\<lambda>ys. int (length ys) = k \<and> distinct ys \<and> set ys \<subseteq> set population)"
proof (cases "k < 0 \<or> int (length population) < k")
  case True
  then show ?thesis by (simp add: sample_def ensures_raise)
next
  case False
  then have kl: "nat k \<le> length population" by linarith
  assume "distinct population"
  with kl have "ensures (sample_loop (nat k) (length population) population)
      (\<lambda>ys. length ys = nat k \<and> distinct ys \<and> set ys \<subseteq> set (take (length population) population))"
    by (intro ensures_sample_loop) simp_all
  then have "ensures (sample_loop (nat k) (length population) population)
      (\<lambda>ys. int (length ys) = k \<and> distinct ys \<and> set ys \<subseteq> set population)"
    using False by (auto elim!: ensures_weaken)
  then show ?thesis using False by (simp add: sample_def)
qed

lemma total_sample_loop: "always_returns (sample_loop k m pool)"
  by (induction k arbitrary: m pool)
     (auto intro!: total_return total_bind[OF total_randbelow ensures_True] total_bind[OF _ ensures_True])

lemma total_sample: "0 \<le> k \<Longrightarrow> k \<le> int (length population) \<Longrightarrow> always_returns (sample population k)"
  by (simp add: sample_def total_sample_loop)

lemma ensures_shuffle_loop:
  "\<forall>i\<in>set is. i < length x \<Longrightarrow> ensures (shuffle_loop is x) (\<lambda>y. mset y = mset x)"
proof (induction "is" arbitrary: x)
  case Nil
  then show ?case by (simp add: ensures_return)
next
  case (Cons i "is")
  show ?case
    unfolding shuffle_loop.simps
  proof (rule ensures_bind[OF ensures_randbelow])
    show "0 < i + 1" by simp
  next
    fix j assume "j < i + 1"
    then have j: "j < length x" and i: "i < length x" using Cons.prems by auto
    have "ensures (shuffle_loop is (x[i := x ! j, j := x ! i]))
        (\<lambda>y. mset y = mset (x[i := x ! j, j := x ! i]))"
      using Cons.prems by (intro Cons.IH) simp
    then show "ensures (shuffle_loop is (x[i := x ! j, j := x ! i])) (\<lambda>y. mset y = mset x)"
      using mset_swap[OF j i] by (simp add: ensures_def)
  qed
qed

lemma ensures_shuffle: "ensures (shuffle x) (\<lambda>y. mset y = mset x)"
  unfolding shuffle_def by (rule ensures_shuffle_loop) auto

lemma total_shuffle_loop: "always_returns (shuffle_loop is x)"
  by (induction "is" arbitrary: x)
     (auto intro!: total_return total_bind[OF total_randbelow ensures_True])

lemma total_shuffle: "always_returns (shuffle x)"
  by (simp add: shuffle_def total_shuffle_loop)


lemma dict_get_country:
  "dict_get SAMPLE_VALUES ''country'' d = map JStr country_codes"
  by (simp add: dict_get_def SAMPLE_VALUES_def country_codes_def)

lemma dict_get_status:
  "dict_get SAMPLE_VALUES ''status'' d = map JStr [''ACTIVE'', ''INACTIVE'', ''PENDING'', ''SUSPENDED'']"
  by (simp add: dict_get_def SAMPLE_VALUES_def)

lemma distinct_country: "distinct (map JStr country_codes)"
  by (simp add: country_codes_def)

lemma ensures_generate_value: "ensures (generate_value fld opr) (value_for opr)"
proof -
  consider (sets) "opr = ''IS_ANY_OF'' \<or> opr = ''IS_NONE_OF''"
    | (between) "opr = ''BETWEEN''"
    | (other) "opr \<noteq> ''IS_ANY_OF''" "opr \<noteq> ''IS_NONE_OF''" "opr \<noteq> ''BETWEEN''"
    by blast
  then show ?thesis
  proof cases
    case sets
    have "ensures
      (rbind (randint 2 4) (\<lambda>k.
       rbind (sample (map JStr country_codes) k) (\<lambda>v.
       return (JList v))))
      (\<lambda>v. distinct_country_codes v \<and> list_of_2_to_4 v)"
      apply (rule ensures_bind[OF ensures_randint])
      apply (rule ensures_bind[OF ensures_sample[OF distinct_country]])
      apply (rule ensures_return)
      apply auto
      done
    then have "ensures (generate_value fld opr) (\<lambda>v. distinct_country_codes v \<and> list_of_2_to_4 v)"
      using sets by (auto simp: generate_value_def dict_get_country)
    then show ?thesis
      by (rule ensures_weaken) (use sets in \<open>auto simp: value_for_def\<close>)
  next
    case between
    have "ensures
      (rbind (randint 100 5000) (\<lambda>min_val.
       rbind (randint 1000 5000) (\<lambda>d.
       return (JList [JInt min_val, JInt (min_val + d)]))))
      (\<lambda>v. gap_1000_to_5000 v \<and> ordered_numeric_pair v)"
      apply (rule ensures_bind[OF ensures_randint])
      apply (rule ensures_bind[OF ensures_randint])
      apply (rule ensures_return)
      apply auto
      done
    then have "ensures (generate_value fld opr) (\<lambda>v. gap_1000_to_5000 v \<and> ordered_numeric_pair v)"
      using between by (simp add: generate_value_def)
    then show ?thesis
      by (rule ensures_weaken) (use between in \<open>simp add: value_for_def\<close>)
  next
    case other
    then show ?thesis by (simp add: ensures_def value_for_def)
  qed
qed

lemma always_returns_generate_value: "always_returns (generate_value fld opr)"
proof -
  have 1: "always_returns (rbind (randint 2 4) (\<lambda>k.
       rbind (sample (map JStr country_codes) k) (\<lambda>v. return (JList v))))"
    apply (rule total_bind[OF total_randint ensures_randint])
     apply simp
    apply (rule total_bind[OF total_sample ensures_True])
      apply (simp_all add: country_codes_def total_return)
    done
  have 2: "always_returns (rbind (randint 100 5000) (\<lambda>min_val.
       rbind (randint 1000 5000) (\<lambda>d. return (JList [JInt min_val, JInt (min_val + d)]))))"
    by (intro total_bind[OF total_randint ensures_True] total_return) simp_all
  have 3: "always_returns (rbind (randint 100 10000) (\<lambda>v. return (JInt v)))"
    by (intro total_bind[OF total_randint ensures_True] total_return) simp_all
  show ?thesis
    unfolding generate_value_def dict_get_country dict_get_status
    using 1 2 3 by (simp add: total_choice)
qed


lemma ensures_generate_conditions:
  "ensures (generate_conditions n flds conds)
     (\<lambda>cs. \<exists>new. cs = conds @ new \<and> length new = n
        \<and> (\<forall>c\<in>set new. value_for (operator c) (val c)))"
proof (induction n arbitrary: conds)
  case 0
  then show ?case by (simp add: ensures_return)
next
  case (Suc n)
  show ?case
    unfolding generate_conditions.simps
    apply (rule ensures_bind[OF ensures_True])
    apply (rule ensures_bind[OF ensures_True])
    apply (rule ensures_bind[OF ensures_generate_value])
    apply (rule ensures_weaken[OF Suc.IH])
    apply auto
    done
qed

lemma total_generate_conditions:
  "flds \<noteq> [] \<Longrightarrow> always_returns (generate_conditions n flds conds)"
proof (induction n arbitrary: conds)
  case 0
  then show ?case by (simp add: total_return)
next
  case (Suc n)
  have ops: "ALL_OPERATORS \<noteq> []"
    by (simp add: ALL_OPERATORS_def VECTORIZABLE_OPERATORS_def)
  show ?case
    unfolding generate_conditions.simps
    apply (rule total_bind[OF total_choice[OF Suc.prems] ensures_True])
    apply (rule total_bind[OF total_choice[OF ops] ensures_True])
    apply (rule total_bind[OF always_returns_generate_value ensures_True])
    apply (rule Suc.IH[OF Suc.prems])
    done
qed

lemma family_fields:
  "map_of FAMILY_FIELDS family = Some flds \<Longrightarrow> family \<in> set FAMILIES \<and> flds \<noteq> []"
  by (auto simp: FAMILY_FIELDS_def FAMILIES_def split: if_splits)

lemma family_fields_defined:
  "family \<in> set FAMILIES \<Longrightarrow> \<exists>flds. map_of FAMILY_FIELDS family = Some flds"
  by (auto simp: FAMILY_FIELDS_def FAMILIES_def)

lemma ensures_dict_item:
  "ensures (dict_item FAMILY_FIELDS family) (\<lambda>flds. family \<in> set FAMILIES \<and> flds \<noteq> [])"
  by (auto simp: dict_item_def ensures_def raise_def return_def dest: family_fields
      split: option.splits)

lemma total_dict_item: "family \<in> set FAMILIES \<Longrightarrow> always_returns (dict_item FAMILY_FIELDS family)"
  using family_fields_defined[of family]
  by (auto simp: dict_item_def total_return)

lemma ensures_rule_code:
  "ensures
     (if is_duplicate then
        rbind (randint 100 500) (\<lambda>off.
        return (family @ ''.rule_'' @ format_04d (max 1 (rule_num - off))))
      else return (family @ ''.rule_'' @ format_04d rule_num))
     (\<lambda>code. if is_duplicate
        then \<exists>off. 100 \<le> off \<and> off \<le> 500
               \<and> code = family @ ''.rule_'' @ format_04d (max 1 (rule_num - off))
        else code = family @ ''.rule_'' @ format_04d rule_num)"
proof (cases is_duplicate)
  case True
  then show ?thesis
    by (auto intro!: ensures_bind[OF ensures_randint] ensures_return)
next
  case False
  then show ?thesis by (simp add: ensures_return)
qed

lemma ensures_corrupt_step:
  assumes "base_rule rule_num family is_duplicate b"
  shows "ensures
     (if is_invalid then rbind (choice invalid_types) (\<lambda>invalid_type. return (corrupt invalid_type b))
      else return b)
     (generated_by rule_num family is_duplicate is_invalid)"
proof (cases is_invalid)
  case True
  have "ensures (rbind (choice invalid_types) (\<lambda>invalid_type. return (corrupt invalid_type b)))
      (generated_by rule_num family is_duplicate True)"
    by (rule ensures_bind[OF ensures_choice], rule ensures_return)
       (use assms in \<open>auto simp: generated_by_def\<close>)
  with True show ?thesis by simp
next
  case False
  then show ?thesis using assms by (auto simp: generated_by_def intro!: ensures_return)
qed

lemma ensures_generate_rule:
  "ensures (generate_rule rule_num family is_duplicate is_invalid)
     (generated_by rule_num family is_duplicate is_invalid)"
  unfolding generate_rule_def
  apply (rule ensures_bind[OF ensures_rule_code])
  apply (rule ensures_bind[OF ensures_dict_item])
  apply (rule ensures_bind[OF ensures_randint])
  apply (rule ensures_bind[OF ensures_generate_conditions])
  apply (rule ensures_bind[OF ensures_randint])
  apply (rule ensures_bind[OF ensures_True])
  apply (rule ensures_bind[where Q="base_rule rule_num family is_duplicate"])
   apply (rule ensures_return)
   apply (auto simp: base_rule_def rule_tags_def)[1]
  apply (erule ensures_corrupt_step)
  done

lemma total_generate_rule:
  assumes "family \<in> set FAMILIES"
  shows "always_returns (generate_rule rule_num family is_duplicate is_invalid)"
proof -
  have code: "always_returns
     (if is_duplicate then
        rbind (randint 100 500) (\<lambda>off.
        return (family @ ''.rule_'' @ format_04d (max 1 (rule_num - off))))
      else return (family @ ''.rule_'' @ format_04d rule_num))"
    by (auto intro!: total_bind[OF total_randint ensures_True] total_return)
  have inv: "invalid_types \<noteq> []" by (simp add: invalid_types_def)
  show ?thesis
    unfolding generate_rule_def
    apply (rule total_bind[OF code ensures_True])
    apply (rule total_bind[OF total_dict_item[OF assms] ensures_dict_item])
    apply (rule total_bind[OF total_randint ensures_True])
     apply simp
    apply (rule total_bind[OF total_generate_conditions ensures_True])
     apply simp
    apply (rule total_bind[OF total_randint ensures_True])
     apply simp
    apply (rule total_bind[OF total_choice ensures_True])
     apply simp
    apply (rule total_bind[OF total_return ensures_True])
    apply (auto intro!: total_bind[OF total_choice[OF inv] ensures_True] total_return)
    done
qed


lemma loop_output_Cons:
  assumes "generated_by start (FAMILIES ! (i mod length FAMILIES)) d v r"
    and "loop_output d v (start + 1) is new"
  shows "loop_output d v start (i # is) (r # new)"
  unfolding loop_output_def
proof (intro conjI allI impI)
  show "length (r # new) = length (i # is)" using assms(2) by (simp add: loop_output_def)
next
  fix j assume j: "j < length (i # is)"
  show "generated_by (start + int j) (FAMILIES ! ((i # is) ! j mod length FAMILIES)) d v ((r # new) ! j)"
  proof (cases j)
    case 0
    then show ?thesis using assms(1) by simp
  next
    case (Suc j')
    then have "j' < length is" using j by simp
    then have "generated_by (start + 1 + int j') (FAMILIES ! (is ! j' mod length FAMILIES)) d v (new ! j')"
      using assms(2) by (simp add: loop_output_def)
    then show ?thesis using Suc by (simp add: add.assoc)
  qed
qed

lemma ensures_generate_loop:
  "ensures (generate_loop d v is st)
     (\<lambda>st'. \<exists>new. fst st' = fst st @ new \<and> snd st' = snd st + int (length is)
        \<and> loop_output d v (snd st) is new)"
proof (induction "is" arbitrary: st)
  case Nil
  then show ?case by (simp add: ensures_return loop_output_def)
next
  case (Cons i "is")
  show ?case
    unfolding generate_loop.simps
  proof (rule ensures_bind[OF ensures_generate_rule])
    fix r assume r: "generated_by (snd st) (FAMILIES ! (i mod length FAMILIES)) d v r"
    show "ensures (generate_loop d v is (fst st @ [r], snd st + 1))
        (\<lambda>st'. \<exists>new. fst st' = fst st @ new \<and> snd st' = snd st + int (length (i # is))
           \<and> loop_output d v (snd st) (i # is) new)"
    proof (rule ensures_weaken[OF Cons.IH])
      fix st' assume "\<exists>new. fst st' = fst (fst st @ [r], snd st + 1) @ new
          \<and> snd st' = snd (fst st @ [r], snd st + 1) + int (length is)
          \<and> loop_output d v (snd (fst st @ [r], snd st + 1)) is new"
      then obtain new where n: "fst st' = fst st @ r # new" "snd st' = snd st + 1 + int (length is)"
          "loop_output d v (snd st + 1) is new"
        by auto
      from loop_output_Cons[OF r n(3)] n(1,2)
      show "\<exists>new. fst st' = fst st @ new \<and> snd st' = snd st + int (length (i # is))
           \<and> loop_output d v (snd st) (i # is) new"
        by auto
    qed
  qed
qed

lemma total_generate_loop: "always_returns (generate_loop d v is st)"
proof (induction "is" arbitrary: st)
  case Nil
  then show ?case by (simp add: total_return)
next
  case (Cons i "is")
  have "length FAMILIES = 10" by (simp add: FAMILIES_def)
  then have "FAMILIES ! (i mod length FAMILIES) \<in> set FAMILIES"
    by (intro nth_mem) simp
  then show ?case
    unfolding generate_loop.simps
    by (intro total_bind[OF total_generate_rule ensures_True] Cons.IH)
qed

lemma ensures_generate_rules: "ensures (generate_rules dst) (rules_output dst)"
  unfolding generate_rules_def
proof (rule ensures_bind[OF ensures_generate_loop])
  fix st1 :: "rule list \<times> int"
  assume "\<exists>new. fst st1 = fst ([], 1::int) @ new
      \<and> snd st1 = snd ([]::rule list, 1::int) + int (length (py_range (num_valid dst)))
      \<and> loop_output False False (snd ([]::rule list, 1::int)) (py_range (num_valid dst)) new"
  then have v: "loop_output False False 1 (py_range (num_valid dst)) (fst st1)"
    and s1: "snd st1 = 1 + int (length (fst st1))"
    by (auto simp: loop_output_def)
  show "ensures
      (rbind (generate_loop True False (py_range (num_duplicates dst)) st1) (\<lambda>st2.
       rbind (generate_loop False True (py_range (num_invalid dst)) st2) (\<lambda>st3.
       return (fst st3))))
      (rules_output dst)"
  proof (rule ensures_bind[OF ensures_generate_loop])
    fix st2 :: "rule list \<times> int"
    assume "\<exists>new. fst st2 = fst st1 @ new
        \<and> snd st2 = snd st1 + int (length (py_range (num_duplicates dst)))
        \<and> loop_output True False (snd st1) (py_range (num_duplicates dst)) new"
    then obtain dup where d: "fst st2 = fst st1 @ dup"
        "loop_output True False (1 + int (length (fst st1))) (py_range (num_duplicates dst)) dup"
        and s2: "snd st2 = 1 + int (length (fst st1)) + int (length dup)"
      by (auto simp: s1 loop_output_def)
    show "ensures
        (rbind (generate_loop False True (py_range (num_invalid dst)) st2) (\<lambda>st3.
         return (fst st3)))
        (rules_output dst)"
    proof (rule ensures_bind[OF ensures_generate_loop], rule ensures_return)
      fix st3 :: "rule list \<times> int"
      assume "\<exists>new. fst st3 = fst st2 @ new
          \<and> snd st3 = snd st2 + int (length (py_range (num_invalid dst)))
          \<and> loop_output False True (snd st2) (py_range (num_invalid dst)) new"
      then obtain inv where i: "fst st3 = fst st1 @ dup @ inv"
          "loop_output False True (1 + int (length (fst st1)) + int (length dup))
             (py_range (num_invalid dst)) inv"
        by (auto simp: s2 d)
      show "rules_output dst (fst st3)"
        unfolding rules_output_def using v d(2) i by blast
    qed
  qed
qed

lemma total_generate_rules: "always_returns (generate_rules dst)"
  unfolding generate_rules_def
  by (intro total_bind[OF total_generate_loop ensures_True] total_return)

section \<open>The generated rules\<close>

lemma nth_py_range: "j < length (py_range k) \<Longrightarrow> py_range k ! j = j"
  by (simp add: py_range_def)

lemma length_py_range: "length (py_range k) = nat k"
  by (simp add: py_range_def)

lemma generation_order_cases:
  obtains (nothing) "generation_order n g = []"
  | (rules) d where "calculate_distribution n = Inr d" "rules_output d (generation_order n g)"
proof (cases "calculate_distribution n")
  case (Inl e)
  then have "generation_order n g = []" by (simp add: generation_order_def)
  then show ?thesis by (rule nothing)
next
  case (Inr d)
  show ?thesis
  proof (cases "generate_rules d g")
    case (Inl e)
    with Inr have "generation_order n g = []" by (simp add: generation_order_def)
    then show ?thesis by (rule nothing)
  next
    case r: (Inr p)
    obtain rs g' where p: "p = (rs, g')" by (cases p)
    from r p have "rules_output d rs" using ensuresD[OF ensures_generate_rules] by blast
    moreover have "generation_order n g = rs" using Inr r p by (simp add: generation_order_def)
    ultimately show ?thesis using Inr by (intro rules) simp_all
  qed
qed

lemma generated_at:
  assumes "i < length (generation_order n g)"
  shows "generated_by (int i + 1) (family_of_index n i)
           (first_duplicate n \<le> i \<and> i < first_invalid n) (first_invalid n \<le> i)
           (generation_order n g ! i)"
proof (cases n g rule: generation_order_cases)
  case nothing
  with assms show ?thesis by simp
next
  case (rules d)
  then obtain valid duplicate invalid where
    rs: "generation_order n g = valid @ duplicate @ invalid"
    and v: "loop_output False False 1 (py_range (num_valid d)) valid"
    and d: "loop_output True False (1 + int (length valid)) (py_range (num_duplicates d)) duplicate"
    and i: "loop_output False True (1 + int (length valid) + int (length duplicate))
            (py_range (num_invalid d)) invalid"
    unfolding rules_output_def by blast
  have lv: "length valid = first_duplicate n"
    using v rules(1) by (simp add: loop_output_def first_duplicate_def length_py_range)
  have ld: "length valid + length duplicate = first_invalid n"
    using v d rules(1) by (simp add: loop_output_def first_invalid_def length_py_range)
  consider (a) "i < length valid" | (b) "length valid \<le> i" "i < length valid + length duplicate"
    | (c) "length valid + length duplicate \<le> i" by linarith
  then show ?thesis
  proof cases
    case a
    then have "generated_by (1 + int i) (FAMILIES ! (i mod length FAMILIES)) False False (valid ! i)"
      using v by (simp add: loop_output_def nth_py_range)
    then show ?thesis using a lv ld by (simp add: rs nth_append family_of_index_def add.commute)
  next
    case b
    define j where "j = i - length valid"
    have j: "j < length duplicate" "i = length valid + j" using b by (simp_all add: j_def)
    then have "generated_by (1 + int (length valid) + int j) (FAMILIES ! (j mod length FAMILIES))
        True False (duplicate ! j)"
      using d by (simp add: loop_output_def nth_py_range)
    moreover have "family_of_index n i = FAMILIES ! (j mod length FAMILIES)"
      using j lv ld by (simp add: family_of_index_def)
    moreover have "generation_order n g ! i = duplicate ! j"
      using j by (simp add: rs nth_append)
    moreover have "first_duplicate n \<le> i \<and> i < first_invalid n" "\<not> first_invalid n \<le> i"
      using j lv ld by simp_all
    ultimately show ?thesis using j(2) by (simp add: algebra_simps)
  next
    case c
    define j where "j = i - length valid - length duplicate"
    have j: "j < length invalid" "i = length valid + length duplicate + j"
      using c assms by (simp_all add: j_def rs)
    then have "generated_by (1 + int (length valid) + int (length duplicate) + int j)
        (FAMILIES ! (j mod length FAMILIES)) False True (invalid ! j)"
      using i by (simp add: loop_output_def nth_py_range)
    moreover have "family_of_index n i = FAMILIES ! (j mod length FAMILIES)"
      using j lv ld by (simp add: family_of_index_def)
    moreover have "generation_order n g ! i = invalid ! j"
      using j by (simp add: rs nth_append)
    moreover have "\<not> (first_duplicate n \<le> i \<and> i < first_invalid n)" "first_invalid n \<le> i"
      using j lv ld by simp_all
    ultimately show ?thesis using j(2) by (simp add: algebra_simps)
  qed
qed

lemma first_le: "first_duplicate n \<le> first_invalid n"
  by (simp add: first_duplicate_def first_invalid_def split: sum.splits)

lemma in_invalid_partition:
  assumes "x \<in> set (invalid_partition n g)"
  obtains i where "i < length (generation_order n g)" "first_invalid n \<le> i"
    "x = generation_order n g ! i"
proof -
  from assms obtain j where j: "j < length (invalid_partition n g)" "x = invalid_partition n g ! j"
    by (auto simp: in_set_conv_nth)
  then have "first_invalid n + j < length (generation_order n g)"
    "x = generation_order n g ! (first_invalid n + j)"
    by (simp_all add: invalid_partition_def)
  then show ?thesis by (intro that[of "first_invalid n + j"]) simp_all
qed

lemma in_duplicate_partition:
  assumes "x \<in> set (duplicate_partition n g)"
  obtains i where "i < length (generation_order n g)" "first_duplicate n \<le> i" "i < first_invalid n"
    "x = generation_order n g ! i"
proof -
  from assms obtain j where j: "j < length (duplicate_partition n g)"
      "x = duplicate_partition n g ! j"
    by (auto simp: in_set_conv_nth)
  then have "first_duplicate n + j < length (generation_order n g)"
    "j < first_invalid n - first_duplicate n"
    "x = generation_order n g ! (first_duplicate n + j)"
    by (auto simp: duplicate_partition_def)
  then show ?thesis by (intro that[of "first_duplicate n + j"]) simp_all
qed

lemma emitted_rules_mset: "mset (emitted_rules fn n fs g) = mset (generation_order n g)"
proof (cases "calculate_distribution n")
  case (Inl e)
  then show ?thesis
    by (simp add: emitted_rules_def the_run_def generate_test_file_def generation_order_def raise_def)
next
  case (Inr d)
  show ?thesis
  proof (cases "generate_rules d g")
    case (Inl e)
    with Inr show ?thesis
      by (simp add: emitted_rules_def the_run_def generate_test_file_def generation_order_def
          rbind_def)
  next
    case r: (Inr p)
    obtain rs g' where p: "p = (rs, g')" by (cases p)
    from total_shuffle obtain ys g'' where sh: "shuffle rs g' = Inr (ys, g'')"
      unfolding always_returns_def by blast
    then have "mset ys = mset rs" using ensuresD[OF ensures_shuffle] by blast
    then show ?thesis
      using Inr r p sh
      by (simp add: emitted_rules_def the_run_def generate_test_file_def generation_order_def
          rbind_def return_def)
  qed
qed

lemma emitted_generated:
  assumes "x \<in> set (emitted_rules fn n fs g)"
  obtains i where "i < length (generation_order n g)" "x = generation_order n g ! i"
proof -
  from assms have "x \<in> set (generation_order n g)"
    using emitted_rules_mset[of fn n fs g] by (metis set_mset_mset)
  then show ?thesis using that by (auto simp: in_set_conv_nth)
qed


lemma corrupt_tags: "tags (corrupt t b) = tags b"
  by (simp add: corrupt_def)

lemma generated_tags:
  "generated_by num fam d v x \<Longrightarrow> tags x = rule_tags num fam \<and> fam \<in> set FAMILIES"
  by (auto simp: generated_by_def base_rule_def corrupt_tags split: if_splits)

lemma family_not_extra_tag:
  assumes "fam \<in> set FAMILIES"
  shows "fam \<noteq> ''production-critical''" "fam \<noteq> ''high-priority''" "fam \<noteq> ''vectorized''"
  using assms by (auto simp: FAMILIES_def)

lemma batch_not_extra_tag:
  "''batch_'' @ s \<noteq> ''production-critical''" "''batch_'' @ s \<noteq> ''high-priority''"
  "''batch_'' @ s \<noteq> ''vectorized''"
  by simp_all

lemma rule_tags_members:
  assumes "fam \<in> set FAMILIES"
  shows "fam \<in> set (rule_tags num fam)"
    and "''batch_'' @ str_of_int (num div 100) \<in> set (rule_tags num fam)"
    and "(''production-critical'' \<in> set (rule_tags num fam)
          \<and> ''high-priority'' \<in> set (rule_tags num fam)) \<longleftrightarrow> num mod 10 = 0"
    and "''vectorized'' \<in> set (rule_tags num fam) \<longleftrightarrow> num mod 7 = 0"
  using family_not_extra_tag[OF assms] batch_not_extra_tag[of "str_of_int (num div 100)"]
  by (simp_all add: rule_tags_def del: append.simps)

text \<open>
  C7. The rule at position \<open>i\<close> of the order of generation, of whichever loop, has
  the rule number \<open>i + 1\<close>. Its tags contain the family of the rule and the tag of its
  batch of a hundred; they contain both \<open>production-critical\<close> and \<open>high-priority\<close>
  exactly when the rule number is a multiple of 10, and \<open>vectorized\<close> exactly when it is
  a multiple of 7. No fault of an invalid rule touches the tags.
\<close>

theorem tags_of_generated_rules:
  "i < length (generation_order n g) \<Longrightarrow>
   family_of_index n i \<in> set (tags (generation_order n g ! i))
   \<and> ''batch_'' @ str_of_int ((int i + 1) div 100) \<in> set (tags (generation_order n g ! i))
   \<and> ((''production-critical'' \<in> set (tags (generation_order n g ! i))
         \<and> ''high-priority'' \<in> set (tags (generation_order n g ! i)))
        \<longleftrightarrow> (int i + 1) mod 10 = 0)
   \<and> (''vectorized'' \<in> set (tags (generation_order n g ! i)) \<longleftrightarrow> (int i + 1) mod 7 = 0)"
proof -
  assume "i < length (generation_order n g)"
  from generated_tags[OF generated_at[OF this]]
  have t: "tags (generation_order n g ! i) = rule_tags (int i + 1) (family_of_index n i)"
    and f: "family_of_index n i \<in> set FAMILIES" by simp_all
  show ?thesis unfolding t using rule_tags_members[OF f, of "int i + 1"] by blast
qed

text \<open>
  C7 at the tenth of ten rules: its number is a multiple of 10 and not of 7.
\<close>

theorem tags_of_generated_rules_witness:
  "9 < length (generation_order 10 (draws []))
   \<and> family_of_index 10 9 \<in> set (tags (generation_order 10 (draws []) ! 9))
   \<and> ''batch_'' @ str_of_int ((int 9 + 1) div 100) \<in> set (tags (generation_order 10 (draws []) ! 9))
   \<and> ((''production-critical'' \<in> set (tags (generation_order 10 (draws []) ! 9))
         \<and> ''high-priority'' \<in> set (tags (generation_order 10 (draws []) ! 9)))
        \<longleftrightarrow> (int 9 + 1) mod 10 = 0)
   \<and> (''vectorized'' \<in> set (tags (generation_order 10 (draws []) ! 9)) \<longleftrightarrow> (int 9 + 1) mod 7 = 0)"
proof -
  have h: "9 < length (generation_order 10 (draws []))" by code_simp
  from tags_of_generated_rules[OF h] h show ?thesis by blast
qed

lemma corrupt_conditions:
  "conditions (corrupt t b) = Some cs \<Longrightarrow> cs \<noteq> [] \<Longrightarrow> conditions b = Some cs"
  by (auto simp: corrupt_def split: if_splits)

lemma generated_conditions:
  assumes "generated_by num fam d v x" "conditions x = Some cs" "cs \<noteq> []"
  shows "1 \<le> length cs" "length cs \<le> 4" "\<forall>c\<in>set cs. value_for (operator c) (val c)"
proof -
  from assms(1) obtain b where b: "base_rule num fam d b"
    and x: "x = b \<or> (\<exists>t. x = corrupt t b)"
    by (auto simp: generated_by_def split: if_splits)
  from x assms(2,3) have "conditions b = Some cs" by (auto dest: corrupt_conditions)
  with b show "1 \<le> length cs" "length cs \<le> 4" "\<forall>c\<in>set cs. value_for (operator c) (val c)"
    by (auto simp: base_rule_def)
qed

lemma value_for_shape: "value_for (operator c) (val c) \<Longrightarrow> value_shape_matches c"
  by (auto simp: value_for_def value_shape_matches_def)

lemma value_for_drawn: "value_for (operator c) (val c) \<Longrightarrow> value_drawn_as_coded c"
  by (auto simp: value_for_def value_drawn_as_coded_def)

text \<open>
  C3. In every emitted rule whose conditions are present and not empty there are one to
  four of them; the value of a \<open>BETWEEN\<close> is a list of two integers, the first at most
  the second, and the value of an \<open>IS_ANY_OF\<close> or \<open>IS_NONE_OF\<close> is a list of two to
  four entries.
\<close>

theorem conditions_of_emitted_rules:
  assumes "x \<in> set (emitted_rules filename n fs g)" "conditions x = Some cs" "cs \<noteq> []"
  shows "1 \<le> length cs \<and> length cs \<le> 4 \<and> (\<forall>c\<in>set cs. value_shape_matches c)"
proof -
  from assms(1) obtain i where "i < length (generation_order n g)" "x = generation_order n g ! i"
    by (rule emitted_generated)
  from generated_conditions[OF generated_at[OF this(1)], folded this(2), OF assms(2,3)]
  show ?thesis by (auto intro: value_for_shape)
qed

text \<open>
  C9. In every condition of an emitted rule, the value of an \<open>IS_ANY_OF\<close> or
  \<open>IS_NONE_OF\<close> is a list of pairwise distinct country codes of the fixed seven, and
  the two bounds of a \<open>BETWEEN\<close> differ by 1000 to 5000, the first strictly below the
  second.
\<close>

theorem values_of_emitted_rules:
  assumes "x \<in> set (emitted_rules filename n fs g)" "conditions x = Some cs" "c \<in> set cs"
  shows "value_drawn_as_coded c"
proof -
  from assms(1) obtain i where "i < length (generation_order n g)" "x = generation_order n g ! i"
    by (rule emitted_generated)
  moreover have "cs \<noteq> []" using assms(3) by auto
  ultimately show ?thesis
    using generated_conditions(3)[OF generated_at, of i n g cs] assms(2,3)
    by (auto intro: value_for_drawn)
qed

text \<open>
  C3 on a run that emits one rule with a \<open>BETWEEN\<close> and an \<open>IS_ANY_OF\<close> condition.
\<close>

theorem conditions_of_emitted_rules_witness:
  "\<lparr>rule_code = Some ''fraud_detection.rule_0001'',
     description = Some ''Fraud Detection Rule 1'',
     conditions =
       Some
        [\<lparr>field = ''transaction_amount'', operator = ''BETWEEN'',
            val = JList [JInt 100, JInt 1100]\<rparr>,
         \<lparr>field = ''transaction_amount'', operator = ''IS_ANY_OF'',
            val = JList [JStr ''US'', JStr ''AU'']\<rparr>],
     priority = 1, enabled = True, tags = [''fraud_detection'', ''batch_0'']\<rparr>
     \<in> set (emitted_rules ''a.jsonl'' 1 Map.empty (draws [1, 0, 6, 0, 0, 0, 2, 0, 0, 0]))
   \<and> 1 \<le> length
        [\<lparr>field = ''transaction_amount'', operator = ''BETWEEN'',
            val = JList [JInt 100, JInt 1100]\<rparr>,
         \<lparr>field = ''transaction_amount'', operator = ''IS_ANY_OF'',
            val = JList [JStr ''US'', JStr ''AU'']\<rparr>]
   \<and> length
        [\<lparr>field = ''transaction_amount'', operator = ''BETWEEN'',
            val = JList [JInt 100, JInt 1100]\<rparr>,
         \<lparr>field = ''transaction_amount'', operator = ''IS_ANY_OF'',
            val = JList [JStr ''US'', JStr ''AU'']\<rparr>] \<le> 4
   \<and> list_all value_shape_matches
        [\<lparr>field = ''transaction_amount'', operator = ''BETWEEN'',
            val = JList [JInt 100, JInt 1100]\<rparr>,
         \<lparr>field = ''transaction_amount'', operator = ''IS_ANY_OF'',
            val = JList [JStr ''US'', JStr ''AU'']\<rparr>]"
proof -
  let ?cs = "[\<lparr>field = ''transaction_amount'', operator = ''BETWEEN'',
            val = JList [JInt 100, JInt 1100]\<rparr>,
         \<lparr>field = ''transaction_amount'', operator = ''IS_ANY_OF'',
            val = JList [JStr ''US'', JStr ''AU'']\<rparr>]"
  let ?x = "\<lparr>rule_code = Some ''fraud_detection.rule_0001'',
     description = Some ''Fraud Detection Rule 1'',
     conditions = Some ?cs,
     priority = 1, enabled = True, tags = [''fraud_detection'', ''batch_0'']\<rparr>"
  have h: "?x \<in> set (emitted_rules ''a.jsonl'' 1 Map.empty (draws [1, 0, 6, 0, 0, 0, 2, 0, 0, 0]))"
    by code_simp
  have "conditions ?x = Some ?cs" "?cs \<noteq> []" by simp_all
  from conditions_of_emitted_rules[OF h this] h show ?thesis
    by (simp only: list_all_iff) blast
qed

text \<open>
  C9 on a run that emits one rule with a \<open>BETWEEN\<close> and an \<open>IS_ANY_OF\<close> condition.
\<close>

theorem values_of_emitted_rules_witness:
  "\<lparr>rule_code = Some ''fraud_detection.rule_0001'',
     description = Some ''Fraud Detection Rule 1'',
     conditions =
       Some
        [\<lparr>field = ''transaction_amount'', operator = ''BETWEEN'',
            val = JList [JInt 100, JInt 1100]\<rparr>,
         \<lparr>field = ''transaction_amount'', operator = ''IS_ANY_OF'',
            val = JList [JStr ''US'', JStr ''AU'']\<rparr>],
     priority = 1, enabled = True, tags = [''fraud_detection'', ''batch_0'']\<rparr>
     \<in> set (emitted_rules ''b.jsonl'' 1 Map.empty (draws [1, 0, 6, 0, 0, 0, 2, 0, 0, 0]))
   \<and> value_drawn_as_coded
        \<lparr>field = ''transaction_amount'', operator = ''BETWEEN'',
           val = JList [JInt 100, JInt 1100]\<rparr>
   \<and> value_drawn_as_coded
        \<lparr>field = ''transaction_amount'', operator = ''IS_ANY_OF'',
           val = JList [JStr ''US'', JStr ''AU'']\<rparr>"
proof -
  let ?c1 = "\<lparr>field = ''transaction_amount'', operator = ''BETWEEN'',
            val = JList [JInt 100, JInt 1100]\<rparr>"
  let ?c2 = "\<lparr>field = ''transaction_amount'', operator = ''IS_ANY_OF'',
            val = JList [JStr ''US'', JStr ''AU'']\<rparr>"
  let ?x = "\<lparr>rule_code = Some ''fraud_detection.rule_0001'',
     description = Some ''Fraud Detection Rule 1'',
     conditions = Some [?c1, ?c2],
     priority = 1, enabled = True, tags = [''fraud_detection'', ''batch_0'']\<rparr>"
  have h: "?x \<in> set (emitted_rules ''b.jsonl'' 1 Map.empty (draws [1, 0, 6, 0, 0, 0, 2, 0, 0, 0]))"
    by code_simp
  have c: "conditions ?x = Some [?c1, ?c2]" by simp
  have "value_drawn_as_coded ?c1"
    by (rule values_of_emitted_rules[OF h c]) simp
  moreover have "value_drawn_as_coded ?c2"
    by (rule values_of_emitted_rules[OF h c]) simp
  ultimately show ?thesis using h by blast
qed

lemma generated_invalid:
  assumes "generated_by num fam False True x"
  shows "count_true (corruptions x) = 1" "count_true (well_formed_fields x) = 3"
proof -
  from assms obtain b t where b: "base_rule num fam False b"
    and t: "t \<in> set invalid_types" and x: "x = corrupt t b"
    by (auto simp: generated_by_def)
  from b obtain code cs where f: "rule_code b = Some code" "description b \<noteq> None"
    "conditions b = Some cs" "1 \<le> length cs" "length cs \<le> 4"
    "\<forall>c\<in>set cs. value_for (operator c) (val c)" "1 \<le> priority b" "priority b \<le> 1000"
    by (auto simp: base_rule_def)
  have cs: "cs \<noteq> []" "list_all value_shape_matches cs"
    using f(4,6) by (auto simp: list_all_iff intro: value_for_shape)
  from t have "t = ''missing_rule_code'' \<or> t = ''missing_description''
      \<or> t = ''missing_conditions'' \<or> t = ''empty_conditions''
      \<or> t = ''invalid_priority_high'' \<or> t = ''invalid_priority_low''
      \<or> t = ''invalid_priority_negative''"
    by (simp add: invalid_types_def)
  then show "count_true (corruptions x) = 1" "count_true (well_formed_fields x) = 3"
    using f cs unfolding x
    by (elim disjE; simp add: corrupt_def corruptions_def well_formed_fields_def count_true_def
        conditions_well_formed_def)+
qed

text \<open>
  C4. Every rule that the third loop generates shows exactly one of the seven faults,
  and exactly three of its four fields that a fault can spoil are well formed; so a rule
  without its code has well-formed conditions and a priority from 1 to 1000.
\<close>

theorem invalid_rules_have_one_fault:
  assumes "x \<in> set (invalid_partition n g)"
  shows "count_true (corruptions x) = 1 \<and> count_true (well_formed_fields x) = 3
    \<and> (rule_code x = None \<longrightarrow>
          conditions_well_formed x \<and> 1 \<le> priority x \<and> priority x \<le> 1000)"
proof -
  from assms obtain i where i: "i < length (generation_order n g)" "first_invalid n \<le> i"
    "x = generation_order n g ! i"
    by (rule in_invalid_partition)
  have "\<not> (first_duplicate n \<le> i \<and> i < first_invalid n)" using i(2) by simp
  with generated_at[OF i(1)] i(2,3)
  have "generated_by (int i + 1) (family_of_index n i) False True x" by simp
  then have c: "count_true (corruptions x) = 1" "count_true (well_formed_fields x) = 3"
    by (rule generated_invalid)+
  from c(2) have "rule_code x = None \<longrightarrow>
      conditions_well_formed x \<and> 1 \<le> priority x \<and> priority x \<le> 1000"
    by (simp add: count_true_def well_formed_fields_def split: if_splits)
  with c show ?thesis by blast
qed

text \<open>
  C4 at 34 rules, the last of which is invalid: it lacks its code.
\<close>

theorem invalid_rules_have_one_fault_witness:
  "\<lparr>rule_code = None, description = Some ''Fraud Detection Rule 34'',
     conditions =
       Some [\<lparr>field = ''transaction_amount'', operator = ''EQUAL_TO'', val = JStr ''ACTIVE''\<rparr>],
     priority = 1, enabled = True, tags = [''fraud_detection'', ''batch_0'']\<rparr>
     \<in> set (invalid_partition 34 (draws []))
   \<and> count_true (corruptions
        \<lparr>rule_code = None, description = Some ''Fraud Detection Rule 34'',
           conditions =
             Some [\<lparr>field = ''transaction_amount'', operator = ''EQUAL_TO'',
                     val = JStr ''ACTIVE''\<rparr>],
           priority = 1, enabled = True, tags = [''fraud_detection'', ''batch_0'']\<rparr>) = 1
   \<and> count_true (well_formed_fields
        \<lparr>rule_code = None, description = Some ''Fraud Detection Rule 34'',
           conditions =
             Some [\<lparr>field = ''transaction_amount'', operator = ''EQUAL_TO'',
                     val = JStr ''ACTIVE''\<rparr>],
           priority = 1, enabled = True, tags = [''fraud_detection'', ''batch_0'']\<rparr>) = 3
   \<and> conditions_well_formed
        \<lparr>rule_code = None, description = Some ''Fraud Detection Rule 34'',
           conditions =
             Some [\<lparr>field = ''transaction_amount'', operator = ''EQUAL_TO'',
                     val = JStr ''ACTIVE''\<rparr>],
           priority = 1, enabled = True, tags = [''fraud_detection'', ''batch_0'']\<rparr>"
proof -
  let ?x = "\<lparr>rule_code = None, description = Some ''Fraud Detection Rule 34'',
     conditions =
       Some [\<lparr>field = ''transaction_amount'', operator = ''EQUAL_TO'', val = JStr ''ACTIVE''\<rparr>],
     priority = 1, enabled = True, tags = [''fraud_detection'', ''batch_0'']\<rparr>"
  have h: "?x \<in> set (invalid_partition 34 (draws []))" by code_simp
  from invalid_rules_have_one_fault[OF h] h show ?thesis by simp
qed



section \<open>The duplicates\<close>

lemma generation_order_rules:
  assumes "calculate_distribution n = Inr d"
  shows "rules_output d (generation_order n g)"
proof -
  from total_generate_rules obtain rs g' where r: "generate_rules d g = Inr (rs, g')"
    unfolding always_returns_def by blast
  then have "rules_output d rs" using ensuresD[OF ensures_generate_rules] by blast
  then show ?thesis using assms r by (simp add: generation_order_def)
qed

lemma generation_order_length:
  assumes "calculate_distribution n = Inr d"
  shows "length (generation_order n g)
    = nat (num_valid d) + nat (num_duplicates d) + nat (num_invalid d)"
  using generation_order_rules[OF assms, of g]
  by (auto simp: rules_output_def loop_output_def length_py_range)

lemma generated_code:
  assumes "generated_by num fam d False x"
  shows "if d then \<exists>off. 100 \<le> off \<and> off \<le> 500
            \<and> rule_code x = Some (fam @ ''.rule_'' @ format_04d (max 1 (num - off)))
         else rule_code x = Some (fam @ ''.rule_'' @ format_04d num)"
  using assms by (auto simp: generated_by_def base_rule_def)

text \<open>
  What holds of every duplicate: its code is made of its own family and of its own rule
  number less an offset from 100 to 500, or of 1 where that is less than 1.
\<close>

lemma duplicate_rule_codes:
  assumes "i < length (generation_order n g)" "first_duplicate n \<le> i" "i < first_invalid n"
  shows "\<exists>off k. 100 \<le> off \<and> off \<le> 500 \<and> k = max 1 (int i + 1 - off)
    \<and> 1 \<le> k \<and> (0 < i \<longrightarrow> k < int i + 1)
    \<and> rule_code (generation_order n g ! i) = Some (family_of_index n i @ ''.rule_'' @ format_04d k)"
proof -
  from generated_at[OF assms(1)] assms(2,3)
  have "generated_by (int i + 1) (family_of_index n i) True False (generation_order n g ! i)"
    by simp
  from generated_code[OF this] obtain off where "100 \<le> off" "off \<le> 500"
    "rule_code (generation_order n g ! i)
      = Some (family_of_index n i @ ''.rule_'' @ format_04d (max 1 (int i + 1 - off)))"
    by auto
  then show ?thesis by (intro exI[of _ off] exI[of _ "max 1 (int i + 1 - off)"]) auto
qed

lemma distribution_40:
  "calculate_distribution 40 = Inr \<lparr>num_duplicates = 2, num_invalid = 1, num_valid = 37\<rparr>"
  by code_simp

lemma firsts_40: "first_duplicate 40 = 37" "first_invalid 40 = 39"
  by (simp_all add: first_duplicate_def first_invalid_def distribution_40)

lemma valid_codes_40:
  "\<forall>i\<in>set [0..<37]. FAMILIES ! (i mod length FAMILIES) @ ''.rule_'' @ format_04d (int i + 1)
      \<noteq> ''customer_segmentation.rule_0001''"
  by code_simp

text \<open>
  C2 at 40 rules, whatever the generator draws: 37 valid rules, two duplicates, one
  invalid rule. The second duplicate has the rule number 39 and the family of index 1; any
  offset from 100 to 500 takes its number down to the floor 1, so its code is
  \<open>customer_segmentation.rule_0001\<close>. The rule number 1 belongs to \<open>fraud_detection\<close>, and
  no rule generated before the second duplicate bears that code.
\<close>

theorem second_duplicate_of_40_repeats_no_code:
  "length (generation_order 40 g) = 40
   \<and> duplicate_partition 40 g = [generation_order 40 g ! 37, generation_order 40 g ! 38]
   \<and> rule_code (generation_order 40 g ! 38) = Some ''customer_segmentation.rule_0001''
   \<and> \<not> collides_with_earlier (generation_order 40 g) 38"
proof -
  let ?rs = "generation_order 40 g"
  have len: "length ?rs = 40"
    using generation_order_length[OF distribution_40, of g] by simp
  have dp: "duplicate_partition 40 g = [?rs ! 37, ?rs ! 38]"
  proof -
    have "length (drop 37 ?rs) = 3" using len by simp
    then have "take 2 (drop 37 ?rs) = [drop 37 ?rs ! 0, drop 37 ?rs ! 1]"
      by (auto simp: take_Suc_conv_app_nth numeral_2_eq_2)
    then show ?thesis using len by (simp add: duplicate_partition_def firsts_40)
  qed
  have valid: "rule_code (?rs ! i) = Some (FAMILIES ! (i mod length FAMILIES) @ ''.rule_'' @ format_04d (int i + 1))"
    if "i < 37" for i
  proof -
    have "i < length ?rs" using that len by simp
    from generated_at[OF this] that
    have "generated_by (int i + 1) (FAMILIES ! (i mod length FAMILIES)) False False (?rs ! i)"
      by (simp add: firsts_40 family_of_index_def)
    from generated_code[OF this] show ?thesis by simp
  qed
  have d0: "rule_code (?rs ! 37) = Some ''fraud_detection.rule_0001''"
  proof -
    have "37 < length ?rs" using len by simp
    from generated_at[OF this]
    have "generated_by 38 (FAMILIES ! 0) True False (?rs ! 37)"
      by (simp add: firsts_40 family_of_index_def)
    from generated_code[OF this] obtain off where "100 \<le> off"
      "rule_code (?rs ! 37) = Some (FAMILIES ! 0 @ ''.rule_'' @ format_04d (max 1 (38 - off)))"
      by auto
    moreover from this(1) have "max 1 (38 - off) = 1" by simp
    moreover have "FAMILIES ! 0 @ ''.rule_'' @ format_04d 1 = ''fraud_detection.rule_0001''"
      by code_simp
    ultimately show ?thesis by simp
  qed
  have d1: "rule_code (?rs ! 38) = Some ''customer_segmentation.rule_0001''"
  proof -
    have "38 < length ?rs" using len by simp
    from generated_at[OF this]
    have "generated_by 39 (FAMILIES ! 1) True False (?rs ! 38)"
      by (simp add: firsts_40 family_of_index_def FAMILIES_def)
    from generated_code[OF this] obtain off where "100 \<le> off"
      "rule_code (?rs ! 38) = Some (FAMILIES ! 1 @ ''.rule_'' @ format_04d (max 1 (39 - off)))"
      by auto
    moreover from this(1) have "max 1 (39 - off) = 1" by simp
    moreover have "FAMILIES ! 1 @ ''.rule_'' @ format_04d 1 = ''customer_segmentation.rule_0001''"
      by code_simp
    ultimately show ?thesis by simp
  qed
  have nc: "rule_code (?rs ! i) \<noteq> rule_code (?rs ! 38)" if "i < 38" for i
  proof (cases "i < 37")
    case True
    then have "i \<in> set [0..<37]" by simp
    with valid_codes_40 valid[OF True] d1 show ?thesis by auto
  next
    case False
    with that have "i = 37" by simp
    with d0 d1 show ?thesis by simp
  qed
  have "\<not> collides_with_earlier ?rs 38"
  proof
    assume "collides_with_earlier ?rs 38"
    then have "rule_code (?rs ! 38) \<in> rule_code ` set (take 38 ?rs)"
      by (simp add: collides_with_earlier_def)
    then obtain x where x: "x \<in> set (take 38 ?rs)" "rule_code (?rs ! 38) = rule_code x"
      by blast
    from x(1) obtain i where "i < 38" "x = ?rs ! i"
      using len by (auto simp: in_set_conv_nth)
    with nc[of i] x(2) show False by simp
  qed
  with len dp d1 show ?thesis by blast
qed

section \<open>The run and its files\<close>

lemma replace_from_absent:
  "\<not> str_contains old s \<Longrightarrow> replace_from old new s = s"
  by (induction old new s rule: replace_from.induct) auto

lemma replace_from_length:
  "length old \<le> length new \<Longrightarrow> length s \<le> length (replace_from old new s)"
proof (induction old new s rule: replace_from.induct)
  case (1 old new)
  then show ?case by simp
next
  case (2 old new c cs)
  show ?case
  proof (cases "old \<noteq> [] \<and> prefix old (c # cs)")
    case True
    then have "length old \<le> length (c # cs)" by (auto dest: prefix_length_le)
    moreover have "length (drop (length old) (c # cs))
        \<le> length (replace_from old new (drop (length old) (c # cs)))"
      using 2 True by blast
    ultimately show ?thesis using True 2(3) by simp
  next
    case False
    then show ?thesis using 2 by auto
  qed
qed

lemma replace_from_longer:
  "length old < length new \<Longrightarrow> old \<noteq> [] \<Longrightarrow> str_contains old s \<Longrightarrow>
   length s < length (replace_from old new s)"
proof (induction old new s rule: replace_from.induct)
  case (1 old new)
  then show ?case by simp
next
  case (2 old new c cs)
  show ?case
  proof (cases "prefix old (c # cs)")
    case True
    then have "length old \<le> length (c # cs)" by (auto dest: prefix_length_le)
    moreover have "length (drop (length old) (c # cs))
        \<le> length (replace_from old new (drop (length old) (c # cs)))"
      using 2(3) by (intro replace_from_length) simp
    ultimately show ?thesis using True 2(3,4) by simp
  next
    case False
    then have "str_contains old cs" using 2(5) by simp
    then show ?thesis using 2 False by auto
  qed
qed

lemma stats_filename_cases:
  "stats_filename filename = filename \<longleftrightarrow> \<not> str_contains ''.jsonl'' filename"
proof (cases "str_contains ''.jsonl'' filename")
  case True
  then have "length filename < length (replace_from ''.jsonl'' ''_stats.json'' filename)"
    by (intro replace_from_longer) simp_all
  then show ?thesis using True by (auto simp: stats_filename_def replace_str_def)
next
  case False
  then show ?thesis by (simp add: stats_filename_def replace_str_def replace_from_absent)
qed

lemma join_Cons: "\<exists>t. join sep (x # xs) = x @ t"
  by (cases xs) auto

lemma dumps_rule_json: "\<exists>t. dumps (rule_json r) = CHR ''{'' # CHR 0x22 # t"
proof -
  obtain k v kvs where kv: "rule_json r = JDict ((k, v) # kvs)"
    by (cases "rule_code r"; cases "description r"; cases "conditions r")
       (simp_all add: rule_json_def)
  obtain t where "join '', '' (map (\<lambda>(k, v). json_string k @ '': '' @ dumps v) ((k, v) # kvs))
      = (json_string k @ '': '' @ dumps v) @ t"
    using join_Cons[of "'', ''" "json_string k @ '': '' @ dumps v"] by auto
  then show ?thesis by (simp add: kv json_string_def)
qed

lemma jsonl_not_stats: "jsonl rules \<noteq> dumps_indent 0 (make_stats n d rules')"
proof (cases rules)
  case Nil
  then show ?thesis by (simp add: jsonl_def make_stats_def)
next
  case (Cons r rs)
  obtain t where "dumps (rule_json r) = CHR ''{'' # CHR 0x22 # t"
    using dumps_rule_json by blast
  then show ?thesis using Cons by (simp add: jsonl_def make_stats_def)
qed

lemma the_run_returns:
  assumes "calculate_distribution n = Inr d"
  shows "\<exists>g'. generate_test_file filename n fs g =
    Inr (\<lparr>emitted = emitted_rules filename n fs g,
          stats = make_stats n d (emitted_rules filename n fs g),
          written =
            (fs(filename \<mapsto> jsonl (emitted_rules filename n fs g)))
              (stats_filename filename \<mapsto>
                 dumps_indent 0 (make_stats n d (emitted_rules filename n fs g))),
          raised = (if n = 0 then Some ZeroDivisionError else None)\<rparr>, g')"
proof -
  from total_generate_rules obtain rs g1 where r: "generate_rules d g = Inr (rs, g1)"
    unfolding always_returns_def by blast
  from total_shuffle obtain ys g2 where sh: "shuffle rs g1 = Inr (ys, g2)"
    unfolding always_returns_def by blast
  show ?thesis
    using assms r sh
    by (simp add: generate_test_file_def rbind_def return_def emitted_rules_def the_run_def)
qed

lemma observed_generate_test_file:
  "observed filename (generate_test_file filename n fs1 g)
    = observed filename (generate_test_file filename n fs2 g)"
proof (cases "calculate_distribution n")
  case (Inl err)
  then show ?thesis by (simp add: generate_test_file_def raise_def)
next
  case (Inr d)
  from the_run_returns[OF Inr, of filename fs1 g] the_run_returns[OF Inr, of filename fs2 g]
  obtain g1 g2 where
    r1: "generate_test_file filename n fs1 g =
      Inr (\<lparr>emitted = emitted_rules filename n fs1 g,
          stats = make_stats n d (emitted_rules filename n fs1 g),
          written =
            (fs1(filename \<mapsto> jsonl (emitted_rules filename n fs1 g)))
              (stats_filename filename \<mapsto>
                 dumps_indent 0 (make_stats n d (emitted_rules filename n fs1 g))),
          raised = (if n = 0 then Some ZeroDivisionError else None)\<rparr>, g1)"
    and r2: "generate_test_file filename n fs2 g =
      Inr (\<lparr>emitted = emitted_rules filename n fs2 g,
          stats = make_stats n d (emitted_rules filename n fs2 g),
          written =
            (fs2(filename \<mapsto> jsonl (emitted_rules filename n fs2 g)))
              (stats_filename filename \<mapsto>
                 dumps_indent 0 (make_stats n d (emitted_rules filename n fs2 g))),
          raised = (if n = 0 then Some ZeroDivisionError else None)\<rparr>, g2)"
    by blast
  have same: "generate_test_file filename n fs1 g = Inr (r, g') \<Longrightarrow>
      \<exists>r'. generate_test_file filename n fs2 g = Inr (r', g') \<and> emitted r' = emitted r" for r g'
    by (auto simp: generate_test_file_def Inr rbind_def return_def split: sum.splits prod.splits)
  from same[OF r1] r2
  have "g2 = g1" "emitted_rules filename n fs2 g = emitted_rules filename n fs1 g" by auto
  then show ?thesis by (simp add: r1 r2 observed_def outputs_def)
qed

text \<open>
  C6. Seeding replaces the state of the generator, and a run reads nothing of the file
  system it starts in: two runs with the same seed, file name and total, started in any
  two states of the generator and in any two file systems, stop with the same exception
  or else emit the same rules in the same order, compute the same statistics and leave
  the same text in the rules file and in the statistics file. So do two runs of the
  script itself.
\<close>

theorem seeded_runs_write_the_same:
  "observed filename (seeded_run seeding a filename n fs1 g1)
     = observed filename (seeded_run seeding a filename n fs2 g2)
   \<and> observed ''rules/test-rules-3k.jsonl'' (main seeding fs1 g1)
     = observed ''rules/test-rules-3k.jsonl'' (main seeding fs2 g2)"
proof -
  have "seeded_run seeding b f m fs g = generate_test_file f m fs (seeding b)" for b f m fs g
    by (simp add: seeded_run_def rbind_def seed_def)
  then show ?thesis
    by (simp only: main_def observed_generate_test_file[where ?fs1.0 = fs1 and ?fs2.0 = fs2])
qed

text \<open>
  C10. When the file name contains \<open>.jsonl\<close>, the path of the statistics differs from
  it, and after the run the rules are at the one and the statistics at the other. When
  it does not, the two paths are the same, and after the run the file holds the
  statistics, which are not the text of the rules.
\<close>

theorem stats_path:
  assumes "calculate_distribution n = Inr d"
  shows "if str_contains ''.jsonl'' filename
    then stats_filename filename \<noteq> filename
      \<and> files_after filename n fs g filename = Some (jsonl (emitted_rules filename n fs g))
      \<and> files_after filename n fs g (stats_filename filename)
          = Some (dumps_indent 0 (stats_json filename n fs g))
    else stats_filename filename = filename
      \<and> files_after filename n fs g filename
          = Some (dumps_indent 0 (stats_json filename n fs g))
      \<and> files_after filename n fs g filename \<noteq> Some (jsonl (emitted_rules filename n fs g))"
proof -
  from the_run_returns[OF assms, of filename fs g] obtain g' where
    run: "generate_test_file filename n fs g =
      Inr (\<lparr>emitted = emitted_rules filename n fs g,
          stats = make_stats n d (emitted_rules filename n fs g),
          written =
            (fs(filename \<mapsto> jsonl (emitted_rules filename n fs g)))
              (stats_filename filename \<mapsto>
                 dumps_indent 0 (make_stats n d (emitted_rules filename n fs g))),
          raised = (if n = 0 then Some ZeroDivisionError else None)\<rparr>, g')"
    by blast
  have s: "stats_json filename n fs g = make_stats n d (emitted_rules filename n fs g)"
    by (simp add: stats_json_def the_run_def run)
  have w: "files_after filename n fs g =
      (fs(filename \<mapsto> jsonl (emitted_rules filename n fs g)))
        (stats_filename filename \<mapsto> dumps_indent 0 (make_stats n d (emitted_rules filename n fs g)))"
    by (simp add: files_after_def the_run_def run)
  show ?thesis
    using stats_filename_cases[of filename] jsonl_not_stats[of "emitted_rules filename n fs g" n d "emitted_rules filename n fs g"]
    by (auto simp: s w)
qed


text \<open>
  C10 for \<open>rules.txt\<close>: one path, and the statistics are what is left at it.
\<close>

theorem stats_path_witness:
  "calculate_distribution 1 = Inr \<lparr>num_duplicates = 0, num_invalid = 0, num_valid = 1\<rparr>
   \<and> stats_filename ''rules.txt'' = ''rules.txt''
   \<and> files_after ''rules.txt'' 1 Map.empty (draws []) ''rules.txt''
       = Some (dumps_indent 0 (stats_json ''rules.txt'' 1 Map.empty (draws [])))
   \<and> files_after ''rules.txt'' 1 Map.empty (draws []) ''rules.txt''
       \<noteq> Some (jsonl (emitted_rules ''rules.txt'' 1 Map.empty (draws [])))"
proof -
  have h: "calculate_distribution 1 = Inr \<lparr>num_duplicates = 0, num_invalid = 0, num_valid = 1\<rparr>"
    by code_simp
  have c: "str_contains ''.jsonl'' ''rules.txt'' = False" by simp
  note stats_path[OF h, of "''rules.txt''" Map.empty "draws []", unfolded c if_False]
  with h show ?thesis by (rule conjI)
qed

lemma round53_neg:
  "round53 (- m, e) = (case round53 (m, e) of (m', e') \<Rightarrow> (- m', e'))"
  by (simp add: round53_def Let_def)

lemma float_of_int_neg:
  "float_of_int (- n) = (case float_of_int n of Inl err \<Rightarrow> Inl err | Inr (m, e) \<Rightarrow> Inr (- m, e))"
  using round53_neg[of n 0]
  by (auto simp: float_of_int_def split: prod.splits)

lemma int_of_float_neg: "int_of_float (- m, e) = - int_of_float (m, e)"
  by (simp add: int_of_float_def)

lemma fmul_neg: "fmul (- m, e) c = (case fmul (m, e) c of (m', e') \<Rightarrow> (- m', e'))"
  using round53_neg by (cases c) (simp add: fmul_def)

lemma int_of_product_neg:
  "int_of_product (- n) c = (case int_of_product n c of Inl err \<Rightarrow> Inl err | Inr k \<Rightarrow> Inr (- k))"
  by (auto simp: int_of_product_def float_of_int_neg fmul_neg int_of_float_neg
      split: sum.splits prod.splits)

lemma calculate_distribution_negative:
  assumes "n < 0" "- (2 ^ 52) \<le> n"
  shows "calculate_distribution n =
    Inr \<lparr>num_duplicates = - (- n div 20), num_invalid = - (3 * (- n) div 100),
         num_valid = n + (- n div 20) + (3 * (- n) div 100)\<rparr>"
proof -
  have m: "1 \<le> - n" "- n \<le> 2 ^ 52" using assms by simp_all
  have "int_of_product n lit_0_05 = Inr (- (- n div 20))"
    using int_of_product_neg[of "- n" lit_0_05] int_of_product_0_05[OF m] by simp
  moreover have "int_of_product n lit_0_03 = Inr (- (3 * (- n) div 100))"
    using int_of_product_neg[of "- n" lit_0_03] int_of_product_0_03[OF m] by simp
  ultimately show ?thesis by (simp add: calculate_distribution_def)
qed

lemma generate_rules_none:
  assumes "num_valid d \<le> 0" "num_duplicates d \<le> 0" "num_invalid d \<le> 0"
  shows "generate_rules d g = Inr ([], g)"
  using assms by (simp add: generate_rules_def py_range_def rbind_def return_def)

lemma shuffle_Nil: "shuffle [] g = Inr ([], g)"
  by (simp add: shuffle_def return_def)

lemma generate_test_file_empty:
  assumes "calculate_distribution n = Inr d"
    and "num_valid d \<le> 0" "num_duplicates d \<le> 0" "num_invalid d \<le> 0" "n \<noteq> 0"
  shows "generate_test_file filename n fs g =
      Inr (\<lparr>emitted = [], stats = make_stats n d [],
            written = (fs(filename \<mapsto> jsonl []))
              (stats_filename filename \<mapsto> dumps_indent 0 (make_stats n d [])),
            raised = None\<rparr>, g)"
  using assms(5)
  by (simp add: generate_test_file_def assms(1) generate_rules_none[OF assms(2,3,4)] rbind_def
      shuffle_Nil return_def)

lemma family_count_Nil: "family_count [] f = 0"
  by (simp add: family_count_def)

lemma stats_of_no_rule:
  "dict_entry (make_stats n d []) ''total_rules'' = Some (JInt n)"
  "dict_entry (make_stats n d []) ''valid_rules'' = Some (JInt (num_valid d))"
  "dict_entry (make_stats n d []) ''duplicate_rules'' = Some (JInt (num_duplicates d))"
  "dict_entry (make_stats n d []) ''invalid_rules'' = Some (JInt (num_invalid d))"
  "dict_entry (make_stats n d []) ''families'' = Some (JDict (map (\<lambda>family. (family, JInt 0)) FAMILIES))"
  by (simp_all add: make_stats_def family_count_Nil)

text \<open>
  C8, as the code has it: nothing validates the total. For a negative total down to
  \<open>- 2 ^ 52\<close> the run is not rejected: the sizes are the negated floors of the positive
  total, none of them positive, no loop runs, and the run writes an empty rules file and
  the statistics of no rule, and raises nothing.
\<close>

theorem negative_total_is_not_rejected:
  assumes "n < 0" "- (2 ^ 52) \<le> n"
  shows "\<not> rejects_up_front filename n fs g
    \<and> calculate_distribution n =
        Inr \<lparr>num_duplicates = - (- n div 20), num_invalid = - (3 * (- n) div 100),
             num_valid = n + (- n div 20) + (3 * (- n) div 100)\<rparr>
    \<and> emitted_rules filename n fs g = []
    \<and> files_after filename n fs g (stats_filename filename)
        = Some (dumps_indent 0 (stats_json filename n fs g))
    \<and> dict_entry (stats_json filename n fs g) ''total_rules'' = Some (JInt n)
    \<and> dict_entry (stats_json filename n fs g) ''families''
        = Some (JDict (map (\<lambda>family. (family, JInt 0)) FAMILIES))
    \<and> the_run filename n fs g \<noteq> None
    \<and> map_option raised (the_run filename n fs g) = Some None"
proof -
  define d where "d = \<lparr>num_duplicates = - (- n div 20), num_invalid = - (3 * (- n) div 100),
         num_valid = n + (- n div 20) + (3 * (- n) div 100)\<rparr>"
  have d: "calculate_distribution n = Inr d"
    unfolding d_def using assms by (rule calculate_distribution_negative)
  have "num_valid d \<le> 0" "num_duplicates d \<le> 0" "num_invalid d \<le> 0" "n \<noteq> 0"
    using assms(1) by (simp_all add: d_def)
  from generate_test_file_empty[OF d this]
  have run: "generate_test_file filename n fs g =
      Inr (\<lparr>emitted = [], stats = make_stats n d [],
            written = (fs(filename \<mapsto> jsonl []))
              (stats_filename filename \<mapsto> dumps_indent 0 (make_stats n d [])),
            raised = None\<rparr>, g)" .
  have "\<not> rejects_up_front filename n fs g" "emitted_rules filename n fs g = []"
    "files_after filename n fs g (stats_filename filename)
        = Some (dumps_indent 0 (stats_json filename n fs g))"
    "dict_entry (stats_json filename n fs g) ''total_rules'' = Some (JInt n)"
    "dict_entry (stats_json filename n fs g) ''families''
        = Some (JDict (map (\<lambda>family. (family, JInt 0)) FAMILIES))"
    "the_run filename n fs g \<noteq> None"
    "map_option raised (the_run filename n fs g) = Some None"
    by (simp_all add: rejects_up_front_def run emitted_rules_def the_run_def
        files_after_def stats_json_def stats_of_no_rule)
  with d show ?thesis unfolding d_def by blast
qed

text \<open>
  C8 at \<open>- 100\<close>: the sizes are \<open>- 5\<close>, \<open>- 3\<close> and \<open>- 92\<close>.
\<close>

theorem negative_total_is_not_rejected_witness:
  "(- 100 :: int) < 0 \<and> - (2 ^ 52) \<le> (- 100 :: int)
   \<and> \<not> rejects_up_front ''a.jsonl'' (- 100) Map.empty (draws [])
   \<and> calculate_distribution (- 100) =
        Inr \<lparr>num_duplicates = - 5, num_invalid = - 3, num_valid = - 92\<rparr>
   \<and> emitted_rules ''a.jsonl'' (- 100) Map.empty (draws []) = []"
  using negative_total_is_not_rejected[of "- 100" "''a.jsonl''" Map.empty "draws []"]
  by simp

text \<open>
  C8 as stated fails: a run with the total \<open>- 100\<close> is not rejected.
\<close>

theorem negative_total_counterexample:
  "\<not> rejects_up_front ''a.jsonl'' (- 100) Map.empty (draws [])"
proof -
  have "calculate_distribution (- 100) =
      Inr \<lparr>num_duplicates = - 5, num_invalid = - 3, num_valid = - 92\<rparr>"
    by code_simp
  from generate_test_file_empty[OF this] show ?thesis
    by (simp add: rejects_up_front_def)
qed

section \<open>The statistics\<close>

lemma div_mult_le_int: "0 < b \<Longrightarrow> (a::int) div b * b \<le> a"
  using div_mult_mod_eq[of a b] pos_mod_sign[of b a] by linarith

lemma round53_bound:
  assumes "0 \<le> m" "round53 (m, e) = (m', e')"
  shows "0 \<le> m'" "e \<le> e'" "m' * 2 ^ nat (e' - e) \<le> 2 * m"
proof -
  define s where "s = bitlen m - 53"
  have abs: "\<bar>m\<bar> = m" using assms(1) by simp
  show "0 \<le> m'" "e \<le> e'" "m' * 2 ^ nat (e' - e) \<le> 2 * m"
  proof (atomize (full), cases "s \<le> 0")
    case True
    then have "m' = m" "e' = e" using assms(2) by (simp_all add: round53_def abs s_def)
    then show "0 \<le> m' \<and> e \<le> e' \<and> m' * 2 ^ nat (e' - e) \<le> 2 * m" using assms(1) by simp
  next
    case False
    then have s: "0 < s" by simp
    then have pos: "0 < m" using assms(1) by (cases "m = 0") (simp_all add: s_def)
    have r: "m' = rshift_rne m (nat s)" "e' = e + s"
      using assms(2) False pos by (simp_all add: round53_def abs s_def Let_def)
    have ns: "0 < nat s" using s by simp
    from rshift_rne_bounds[OF assms(1) ns]
    have lo: "(m + 2 ^ (nat s - 1) - 1) div 2 ^ nat s \<le> m'"
      and hi: "m' \<le> (m + 2 ^ (nat s - 1)) div 2 ^ nat s"
      by (simp_all add: r)
    have "(0::int) < 2 ^ (nat s - 1)" by simp
    then have "0 \<le> m + 2 ^ (nat s - 1) - 1" using assms(1) by linarith
    then have "0 \<le> (m + 2 ^ (nat s - 1) - 1) div 2 ^ nat s"
      by (simp only: pos_imp_zdiv_nonneg_iff[of "2 ^ nat s"] zero_less_power zero_less_numeral)
    then have m0: "0 \<le> m'" using lo by simp
    have "nat s - 1 \<le> nat (bitlen m - 1)" by (simp add: s_def)
    then have "(2::int) ^ (nat s - 1) \<le> 2 ^ nat (bitlen m - 1)"
      by (intro power_increasing) simp_all
    then have h: "2 ^ (nat s - 1) \<le> m" using bitlen_bounds[OF pos] by linarith
    have "m' * 2 ^ nat s \<le> (m + 2 ^ (nat s - 1)) div 2 ^ nat s * 2 ^ nat s"
      using hi by (simp add: mult_right_mono)
    also have "\<dots> \<le> m + 2 ^ (nat s - 1)" by (intro div_mult_le_int) simp
    also have "\<dots> \<le> 2 * m" using h by simp
    finally have "m' * 2 ^ nat (e' - e) \<le> 2 * m" by (simp add: r)
    with m0 s show "0 \<le> m' \<and> e \<le> e' \<and> m' * 2 ^ nat (e' - e) \<le> 2 * m" by (simp add: r)
  qed
qed

lemma int_of_product_bound:
  assumes "0 \<le> n" "0 \<le> M" "int_of_product n (M, - int E) = Inr k"
  shows "0 \<le> k" "k * 2 ^ E \<le> 4 * n * M"
proof -
  obtain mx ex where x: "round53 (n, 0) = (mx, ex)" by (cases "round53 (n, 0)")
  obtain q e' where q: "round53 (mx * M, ex - int E) = (q, e')"
    by (cases "round53 (mx * M, ex - int E)")
  from assms(3) have fl: "float_of_int n = Inr (mx, ex)"
    and k: "k = int_of_float (q, e')"
    by (auto simp: int_of_product_def float_of_int_def x fmul_def q split: if_splits)
  from round53_bound[OF assms(1) x]
  have mx: "0 \<le> mx" "0 \<le> ex" "mx * 2 ^ nat ex \<le> 2 * n" by simp_all
  have "0 \<le> mx * M" using mx(1) assms(2) by simp
  from round53_bound[OF this q]
  have qb: "0 \<le> q" "ex - int E \<le> e'" "q * 2 ^ nat (e' - (ex - int E)) \<le> 2 * (mx * M)" .
  define a where "a = nat (e' - (ex - int E))"
  define b where "b = nat ex"
  have ab: "int a + int b = e' + int E" using qb(2) mx(2) by (simp add: a_def b_def)
  show k0: "0 \<le> k"
    using qb(1) by (simp add: k int_of_float_def sgn_if pos_imp_zdiv_nonneg_iff)
  have "k * 2 ^ E \<le> q * 2 ^ (a + b)"
  proof (cases "0 \<le> e'")
    case True
    then have "nat e' + E = a + b" using ab by linarith
    then have "(2::int) ^ nat e' * 2 ^ E = 2 ^ (a + b)" by (simp flip: power_add)
    then show ?thesis using True by (simp add: k int_of_float_def mult.assoc)
  next
    case False
    define c where "c = nat (- e')"
    have E: "E = c + (a + b)" using ab False by (simp add: c_def)
    have "k = q div 2 ^ c" using False qb(1) by (simp add: k int_of_float_def c_def sgn_if)
    then have "k * 2 ^ c \<le> q" by (simp add: div_mult_le_int)
    then have "k * 2 ^ c * 2 ^ (a + b) \<le> q * 2 ^ (a + b)" by (simp add: mult_right_mono)
    then show ?thesis by (simp add: E power_add mult.assoc)
  qed
  also have "\<dots> = (q * 2 ^ a) * 2 ^ b" by (simp add: power_add)
  also have "\<dots> \<le> 2 * (mx * M) * 2 ^ b" using qb(3) by (simp add: a_def mult_right_mono)
  also have "\<dots> = 2 * M * (mx * 2 ^ b)" by simp
  also have "\<dots> \<le> 2 * M * (2 * n)"
    using mx(3) assms(2) unfolding b_def by (intro mult_left_mono) simp_all
  finally show "k * 2 ^ E \<le> 4 * n * M" by (simp add: mult_ac)
qed

lemma distribution_nonnegative:
  assumes "0 \<le> n" "calculate_distribution n = Inr d"
  shows "0 \<le> num_duplicates d" "0 \<le> num_invalid d" "0 \<le> num_valid d"
proof -
  from assms(2) have nd: "int_of_product n (7205759403792794, - int 57) = Inr (num_duplicates d)"
    and ni: "int_of_product n (8646911284551352, - int 58) = Inr (num_invalid d)"
    and nv: "num_valid d = n - num_duplicates d - num_invalid d"
    by (auto simp: calculate_distribution_def lit_0_05_def lit_0_03_def split: sum.splits)
  from int_of_product_bound[OF assms(1) _ nd] int_of_product_bound[OF assms(1) _ ni]
  have b: "0 \<le> num_duplicates d" "num_duplicates d * 2 ^ 57 \<le> 4 * n * 7205759403792794"
    "0 \<le> num_invalid d" "num_invalid d * 2 ^ 58 \<le> 4 * n * 8646911284551352"
    by simp_all
  show "0 \<le> num_duplicates d" "0 \<le> num_invalid d" by (rule b)+
  show "0 \<le> num_valid d" using b assms(1) by (simp add: nv)
qed


lemma family_count_alt:
  "family_count rules family
    = int (length (filter (\<lambda>r. startswith (code_or_empty r) family) rules))"
  by (simp add: family_count_def code_or_empty_def)

lemma sum_list_indicator:
  "(\<Sum>f\<leftarrow>fs. if P f then (1::int) else 0) = int (length (filter P fs))"
  by (induction fs) simp_all

lemma family_count_sum:
  "sum_list (map (family_count rules) FAMILIES) = (\<Sum>r\<leftarrow>rules. int (families_counting r))"
proof (induction rules)
  case Nil
  then show ?case by (simp add: family_count_alt)
next
  case (Cons r rules)
  have "sum_list (map (family_count (r # rules)) FAMILIES)
      = (\<Sum>f\<leftarrow>FAMILIES. (if startswith (code_or_empty r) f then 1 else 0) + family_count rules f)"
    by (intro arg_cong[where f=sum_list] map_cong) (simp_all add: family_count_alt)
  also have "\<dots> = (\<Sum>f\<leftarrow>FAMILIES. if startswith (code_or_empty r) f then 1 else 0)
      + sum_list (map (family_count rules) FAMILIES)"
    by (simp add: sum_list_addf)
  also have "\<dots> = int (families_counting r) + (\<Sum>r\<leftarrow>rules. int (families_counting r))"
    by (simp add: sum_list_indicator families_counting_def Cons.IH)
  finally show ?case by simp
qed

lemma families_incomparable:
  "\<forall>f\<in>set FAMILIES. \<forall>f'\<in>set FAMILIES. prefix f f' \<longrightarrow> f = f'"
  by code_simp

lemma distinct_families: "distinct FAMILIES"
  by code_simp

lemma family_prefix_iff:
  assumes "fam \<in> set FAMILIES" "f \<in> set FAMILIES"
  shows "startswith (fam @ rest) f \<longleftrightarrow> f = fam"
proof
  assume "startswith (fam @ rest) f"
  then have "prefix f fam \<or> prefix fam f"
    by (auto simp: startswith_def prefix_append)
  then show "f = fam" using families_incomparable assms by blast
next
  assume "f = fam"
  then show "startswith (fam @ rest) f" by (simp add: startswith_def)
qed

lemma length_filter_eq:
  "distinct xs \<Longrightarrow> x \<in> set xs \<Longrightarrow> length (filter (\<lambda>y. y = x) xs) = 1"
  by (induction xs) (auto simp: filter_empty_conv)

lemma family_prefix_once:
  assumes "fam \<in> set FAMILIES"
  shows "length (filter (startswith (fam @ rest)) FAMILIES) = 1"
proof -
  have "filter (startswith (fam @ rest)) FAMILIES = filter (\<lambda>f. f = fam) FAMILIES"
    by (rule filter_cong) (simp_all add: family_prefix_iff[OF assms])
  then show ?thesis using length_filter_eq[OF distinct_families assms] by simp
qed

lemma no_family_prefix_of_empty: "length (filter (startswith []) FAMILIES) = 0"
  by (simp add: FAMILIES_def startswith_def)

lemma corrupt_code: "rule_code (corrupt t b) = None \<or> rule_code (corrupt t b) = rule_code b"
  by (simp add: corrupt_def)

lemma generated_families_counting:
  assumes "generated_by num fam d v x"
  shows "families_counting x = (if rule_code x = None then 0 else 1)"
proof -
  from assms obtain b where b: "base_rule num fam d b"
    and x: "x = b \<or> (\<exists>t. x = corrupt t b)"
    by (auto simp: generated_by_def split: if_splits)
  from b obtain rest where c: "rule_code b = Some (fam @ rest)" and f: "fam \<in> set FAMILIES"
    by (auto simp: base_rule_def split: if_splits)
  from x corrupt_code have "rule_code x = None \<or> rule_code x = Some (fam @ rest)"
    using c by metis
  then show ?thesis
    using family_prefix_once[OF f, of rest] no_family_prefix_of_empty
    by (auto simp: families_counting_def code_or_empty_def)
qed

lemma sum_list_counting:
  assumes "\<forall>x\<in>set rules. families_counting x = (if rule_code x = None then 0 else 1)"
  shows "(\<Sum>r\<leftarrow>rules. int (families_counting r))
    = int (length rules) - int (length (filter (\<lambda>x. rule_code x = None) rules))"
  using assms by (induction rules) auto


lemma length_emitted_rules:
  assumes "0 \<le> n" "calculate_distribution n = Inr d"
  shows "int (length (emitted_rules filename n fs g)) = n"
proof -
  have "length (emitted_rules filename n fs g) = length (generation_order n g)"
    using emitted_rules_mset[of filename n fs g] by (metis size_mset)
  also have "\<dots> = nat (num_valid d) + nat (num_duplicates d) + nat (num_invalid d)"
    by (rule generation_order_length[OF assms(2)])
  finally show ?thesis
    using distribution_nonnegative[OF assms] calculate_distribution_sum[OF assms(2)] by simp
qed

text \<open>
  C5. For a total that is not negative, the statistics of a run name the total and give
  a count for each of the ten families, in their order. The counts add up to at most the
  total, and what is missing is the number of the emitted rules without a code: a rule
  with a code is counted by exactly one family, a rule without one by none.
\<close>

theorem family_counts_in_stats:
  assumes "0 \<le> n" "calculate_distribution n = Inr d"
  shows "dict_entry (stats_json filename n fs g) ''total_rules'' = Some (JInt n)
    \<and> dict_entry (stats_json filename n fs g) ''families''
        = Some (JDict (map (\<lambda>family. (family, JInt (family_count (emitted_rules filename n fs g) family)))
            FAMILIES))
    \<and> sum_list (map (family_count (emitted_rules filename n fs g)) FAMILIES) \<le> n
    \<and> n - sum_list (map (family_count (emitted_rules filename n fs g)) FAMILIES)
        = int (length (filter (\<lambda>x. rule_code x = None) (emitted_rules filename n fs g)))
    \<and> list_all (\<lambda>x. families_counting x = (if rule_code x = None then 0 else 1))
        (emitted_rules filename n fs g)"
proof -
  let ?E = "emitted_rules filename n fs g"
  from the_run_returns[OF assms(2), of filename fs g]
  have s: "stats_json filename n fs g = make_stats n d ?E"
    by (auto simp: stats_json_def the_run_def)
  have once: "\<forall>x\<in>set ?E. families_counting x = (if rule_code x = None then 0 else 1)"
  proof
    fix x assume "x \<in> set ?E"
    then obtain i where "i < length (generation_order n g)" "x = generation_order n g ! i"
      by (rule emitted_generated)
    with generated_at[OF this(1)] show "families_counting x = (if rule_code x = None then 0 else 1)"
      by (simp add: generated_families_counting)
  qed
  have sum: "sum_list (map (family_count ?E) FAMILIES)
      = n - int (length (filter (\<lambda>x. rule_code x = None) ?E))"
    using sum_list_counting[OF once] length_emitted_rules[OF assms, of filename fs g]
    by (simp add: family_count_sum)
  have "dict_entry (stats_json filename n fs g) ''total_rules'' = Some (JInt n)"
    "dict_entry (stats_json filename n fs g) ''families''
        = Some (JDict (map (\<lambda>family. (family, JInt (family_count ?E family))) FAMILIES))"
    by (simp_all add: s make_stats_def)
  moreover have "sum_list (map (family_count ?E) FAMILIES) \<le> n"
    "n - sum_list (map (family_count ?E) FAMILIES)
        = int (length (filter (\<lambda>x. rule_code x = None) ?E))"
    using sum by simp_all
  moreover have "list_all (\<lambda>x. families_counting x = (if rule_code x = None then 0 else 1)) ?E"
    using once by (simp add: list_all_iff)
  ultimately show ?thesis by blast
qed

lemma length_filter_emitted_rules:
  "length (filter P (emitted_rules filename n fs g)) = length (filter P (generation_order n g))"
proof -
  have "mset (filter P (emitted_rules filename n fs g)) = mset (filter P (generation_order n g))"
    by (simp only: mset_filter emitted_rules_mset)
  then show ?thesis by (metis size_mset)
qed

text \<open>
  C5 at 34 rules, one of which lacks its code: the counts add up to 33.
\<close>

theorem family_counts_in_stats_witness:
  "(0::int) \<le> 34
   \<and> calculate_distribution 34 = Inr \<lparr>num_duplicates = 1, num_invalid = 1, num_valid = 32\<rparr>
   \<and> dict_entry (stats_json ''a.jsonl'' 34 Map.empty (draws [])) ''total_rules'' = Some (JInt 34)
   \<and> sum_list (map (family_count (emitted_rules ''a.jsonl'' 34 Map.empty (draws []))) FAMILIES) = 33
   \<and> length (filter (\<lambda>x. rule_code x = None) (emitted_rules ''a.jsonl'' 34 Map.empty (draws []))) = 1"
proof -
  have h: "calculate_distribution 34 = Inr \<lparr>num_duplicates = 1, num_invalid = 1, num_valid = 32\<rparr>"
    by code_simp
  have "length (filter (\<lambda>x. rule_code x = None) (generation_order 34 (draws []))) = 1"
    by code_simp
  then have m: "length (filter (\<lambda>x. rule_code x = None)
      (emitted_rules ''a.jsonl'' 34 Map.empty (draws []))) = 1"
    by (simp only: length_filter_emitted_rules)
  from family_counts_in_stats[OF _ h, of "''a.jsonl''" Map.empty "draws []"] h m
  show ?thesis by simp
qed

lemma distribution_minus_100:
  "calculate_distribution (- 100) = Inr \<lparr>num_duplicates = - 5, num_invalid = - 3, num_valid = - 92\<rparr>"
  by code_simp

text \<open>
  C5 as stated, for any total, fails: the run with the total \<open>- 100\<close> writes statistics
  that name this total, and the counts of the families add up to 0, which is more.
\<close>

theorem family_counts_negative_counterexample:
  "dict_entry (stats_json ''a.jsonl'' (- 100) Map.empty (draws [])) ''total_rules''
     = Some (JInt (- 100))
   \<and> sum_list (map (family_count (emitted_rules ''a.jsonl'' (- 100) Map.empty (draws []))) FAMILIES)
     = 0
   \<and> \<not> sum_list (map (family_count (emitted_rules ''a.jsonl'' (- 100) Map.empty (draws []))) FAMILIES)
       \<le> - 100"
proof -
  from generate_test_file_empty[OF distribution_minus_100, of "''a.jsonl''" Map.empty "draws []"]
  have run: "generate_test_file ''a.jsonl'' (- 100) Map.empty (draws []) =
      Inr (\<lparr>emitted = [],
            stats = make_stats (- 100) \<lparr>num_duplicates = - 5, num_invalid = - 3, num_valid = - 92\<rparr> [],
            written = (Map.empty(''a.jsonl'' \<mapsto> jsonl []))
              (stats_filename ''a.jsonl'' \<mapsto> dumps_indent 0
                 (make_stats (- 100) \<lparr>num_duplicates = - 5, num_invalid = - 3, num_valid = - 92\<rparr> [])),
            raised = None\<rparr>, draws [])"
    by simp
  have e: "emitted_rules ''a.jsonl'' (- 100) Map.empty (draws []) = []"
    by (simp add: emitted_rules_def the_run_def run)
  have s: "sum_list (map (family_count []) FAMILIES) = 0"
    by (simp add: family_count_sum)
  have t: "dict_entry (stats_json ''a.jsonl'' (- 100) Map.empty (draws [])) ''total_rules''
     = Some (JInt (- 100))"
    by (simp add: stats_json_def the_run_def run stats_of_no_rule)
  show ?thesis unfolding e s using t by simp
qed

end
